theory Spec2Isabelle
  imports Main "HOL-Library.Word"
begin

section \<open>The node tree\<close>

text \<open>
  \<^verbatim>\<open>struct XmlAttribute { std::string name; std::string value; };\<close>
  \<^verbatim>\<open>struct XmlNode { std::string name; std::string text;
       std::vector<XmlAttribute> attributes; std::vector<XmlNode> children; };\<close>
  A text node is a node named \<^verbatim>\<open>#text\<close>; its content is in the field \<^verbatim>\<open>text\<close>.
  The fields \<^verbatim>\<open>text\<close> and \<^verbatim>\<open>value\<close> are \<open>node_text\<close> and \<open>attr_value\<close> here.
\<close>

datatype XmlAttribute = XmlAttribute (attr_name: string) (attr_value: string)

datatype XmlNode = XmlNode (name: string) (node_text: string)
  (attributes: "XmlAttribute list") (children: "XmlNode list")

text \<open>The three lookups of \<^verbatim>\<open>XmlNode\<close>: first match in order, or all matches in order.\<close>

definition attr :: "XmlNode \<Rightarrow> string \<Rightarrow> XmlAttribute option" where
  "attr node key = find (\<lambda>a. attr_name a = key) (attributes node)"

definition child :: "XmlNode \<Rightarrow> string \<Rightarrow> XmlNode option" where
  "child node key = find (\<lambda>c. name c = key) (children node)"

definition childrenNamed :: "XmlNode \<Rightarrow> string \<Rightarrow> XmlNode list" where
  "childrenNamed node key = filter (\<lambda>c. name c = key) (children node)"

abbreviation dq :: char where "dq \<equiv> CHR 0x22"
abbreviation nl :: char where "nl \<equiv> CHR 0x0A"

section \<open>The renderer\<close>

text \<open>
  \<^verbatim>\<open>Config\<close> as declared in Config.hpp. \<^verbatim>\<open>int\<close> is a 32-bit two's complement
  integer: addition on \<^typ>\<open>32 word\<close> wraps, \<^term>\<open>sint\<close> reads the signed value and
  \<open><s\<close> compares signed.
\<close>

type_synonym cint = "32 word"

record Config =
  inputXmlDir :: string
  outputMdxDir :: string
  cssOutputPath :: string
  projectName :: string
  headingOffset :: cint
  emitIndex :: bool

text \<open>
  \<^verbatim>\<open>heading(level, offset)\<close>: the sum is clamped to 1..6 and that many \<^verbatim>\<open>#\<close> are
  produced (\<^verbatim>\<open>static_cast<size_t>(l)\<close> of a value between 1 and 6).
\<close>

definition heading :: "cint \<Rightarrow> cint \<Rightarrow> string" where
  "heading level offset =
     (let l = level + offset;
          l = (if l <s 1 then 1 else l);
          l = (if 6 <s l then 6 else l)
      in replicate (nat (sint l)) (CHR ''#''))"

fun nodeText :: "XmlNode \<Rightarrow> string" where
  "nodeText (XmlNode nm tx as cs) =
     (if nm = ''#text'' then tx else concat (map nodeText cs))"

lemma children_size [termination_simp]:
  "c \<in> set (children n) \<Longrightarrow> size c < size n"
  by (cases n) (auto dest: size_list_estimation' simp: less_Suc_eq_le)

text \<open>
  Every call goes to a strictly smaller node, except the dispatcher handing its own node
  to a helper; the dispatcher therefore ranks above the helpers.
\<close>

definition render_measure ::
  "(XmlNode + XmlNode + XmlNode) + (XmlNode \<times> string + XmlNode + XmlNode) \<Rightarrow> nat" where
  "render_measure x = (case x of
       Inl (Inl n) \<Rightarrow> 2 * size n + 1
     | Inl (Inr (Inl n)) \<Rightarrow> 2 * size n
     | Inl (Inr (Inr n)) \<Rightarrow> 2 * size n
     | Inr (Inl (n, b)) \<Rightarrow> 2 * size n
     | Inr (Inr (Inl n)) \<Rightarrow> 2 * size n
     | Inr (Inr (Inr n)) \<Rightarrow> 2 * size n)"

text \<open>
  The inline dispatcher and the helpers it calls and that call it back. Every
  \<^verbatim>\<open>for\<close> loop appends to an output stream in document order: a \<^term>\<open>concat\<close> of a
  \<^term>\<open>map\<close>; a loop that skips children by name is a \<^term>\<open>filter\<close> first.
  In \<^verbatim>\<open>renderTable\<close> the second loop runs over the row index \<^verbatim>\<open>r\<close> and tests
  \<^verbatim>\<open>r == 0\<close>.
\<close>

function renderNodeInline :: "XmlNode \<Rightarrow> string"
  and renderPara :: "XmlNode \<Rightarrow> string"
  and renderTable :: "XmlNode \<Rightarrow> string"
  and renderList :: "XmlNode \<Rightarrow> string \<Rightarrow> string"
  and renderCode :: "XmlNode \<Rightarrow> string"
  and wrapUnknown :: "XmlNode \<Rightarrow> string"
where
  "renderNodeInline node =
     (if name node = ''#text'' then node_text node
      else if name node = ''bold'' then ''**'' @ nodeText node @ ''**''
      else if name node = ''emphasis'' then ''*'' @ nodeText node @ ''*''
      else if name node = ''computeroutput'' then ''`'' @ nodeText node @ ''`''
      else if name node = ''ref'' then
        (let label = nodeText node;
             anchor = (case attr node ''refid'' of Some i \<Rightarrow> attr_value i | None \<Rightarrow> label)
         in ''['' @ label @ ''](#'' @ anchor @ '')'')
      else if name node = ''itemizedlist'' then [nl] @ renderList node ''-'' @ [nl]
      else if name node = ''orderedlist'' then [nl] @ renderList node ''1.'' @ [nl]
      else if name node = ''table'' then [nl] @ renderTable node @ [nl]
      else if name node = ''programlisting'' then [nl] @ renderCode node @ [nl]
      else if name node = ''para'' then renderPara node
      else wrapUnknown node)"
| "renderPara node = concat (map renderNodeInline (children node))"
| "renderTable node =
     (let rows = filter (\<lambda>cells. cells \<noteq> [])
            (map (\<lambda>row. map (\<lambda>entry. concat (map renderNodeInline (children entry)))
                             (filter (\<lambda>entry. name entry = ''entry'') (children row)))
                 (filter (\<lambda>row. name row = ''row'') (children node)))
      in if rows = [] then ''''
         else ''<table class='' @ [dq] @ ''doxygen-table'' @ [dq] @ ''>'' @ [nl]
            @ concat (map (\<lambda>r. ''<tr>''
                 @ concat (map (\<lambda>cell. (if r = 0 then ''<th>'' else ''<td>'') @ cell
                                         @ (if r = 0 then ''</th>'' else ''</td>''))
                               (rows ! r))
                 @ ''</tr>'' @ [nl]) [0..<length rows])
            @ ''</table>'' @ [nl])"
| "renderList node bullet =
     concat (map (\<lambda>item. bullet @ '' ''
                 @ concat (map (\<lambda>c. if name c = ''para'' then renderPara c
                                      else renderNodeInline c) (children item))
                 @ [nl])
             (filter (\<lambda>item. name item = ''listitem'') (children node)))"
| "renderCode node =
     ''```cpp'' @ [nl]
     @ concat (map (\<lambda>cl. concat (map renderNodeInline (children cl)) @ [nl])
                   (filter (\<lambda>cl. name cl = ''codeline'') (children node)))
     @ ''```'' @ [nl]"
| "wrapUnknown node =
     ''<div class='' @ [dq] @ ''doxygen-'' @ name node @ [dq] @ ''>''
     @ concat (map renderNodeInline (children node))
     @ ''</div>''"
  by pat_completeness auto

termination
  apply (relation "measure render_measure")
  apply (auto simp: render_measure_def dest!: children_size)
  done

declare renderNodeInline.simps [simp del] renderPara.simps [simp del]
  renderTable.simps [simp del] renderList.simps [simp del]
  renderCode.simps [simp del] wrapUnknown.simps [simp del]

text \<open>\<^verbatim>\<open>Converter::renderDescription\<close>\<close>

definition renderDescription :: "XmlNode \<Rightarrow> string" where
  "renderDescription desc =
     concat (map (\<lambda>c. if name c = ''para'' then renderPara c @ [nl, nl]
                       else if name c = ''#text'' then
                         (if node_text c \<noteq> [] then node_text c @ [nl, nl] else [])
                       else wrapUnknown c @ [nl, nl])
                 (children desc))"

text \<open>\<^verbatim>\<open>Converter::renderMember\<close>\<close>

definition renderMember :: "Config \<Rightarrow> XmlNode \<Rightarrow> cint \<Rightarrow> string" where
  "renderMember config member level =
     (let nm = (case child member ''name'' of Some c \<Rightarrow> nodeText c | None \<Rightarrow> ''member'');
          def = (case child member ''definition'' of Some c \<Rightarrow> nodeText c | None \<Rightarrow> '''');
          args = (case child member ''argsstring'' of Some c \<Rightarrow> nodeText c | None \<Rightarrow> '''');
          signature = (if def = [] then nm else def @ args)
      in heading level (headingOffset config) @ '' '' @ signature @ [nl, nl]
         @ (case child member ''briefdescription'' of
              Some brief \<Rightarrow> renderDescription brief | None \<Rightarrow> [])
         @ (case child member ''detaileddescription'' of
              Some detail \<Rightarrow> renderDescription detail | None \<Rightarrow> []))"

text \<open>\<^verbatim>\<open>Converter::renderCompound\<close>\<close>

definition renderCompound :: "Config \<Rightarrow> XmlNode \<Rightarrow> string" where
  "renderCompound config compound =
     (let nm = (case child compound ''compoundname'' of
                  Some c \<Rightarrow> nodeText c | None \<Rightarrow> ''Unknown'');
          kind = (case attr compound ''kind'' of Some k \<Rightarrow> attr_value k | None \<Rightarrow> ''compound'')
      in heading 1 (headingOffset config) @ '' '' @ nm @ '' ('' @ kind @ '')'' @ [nl, nl]
         @ (case child compound ''briefdescription'' of
              Some brief \<Rightarrow> renderDescription brief | None \<Rightarrow> [])
         @ (case child compound ''detaileddescription'' of
              Some detail \<Rightarrow> renderDescription detail | None \<Rightarrow> [])
         @ concat (map (\<lambda>section.
              (let stitle = (case attr section ''kind'' of
                               Some k \<Rightarrow> attr_value k | None \<Rightarrow> ''Members'')
               in [nl] @ heading 2 (headingOffset config) @ '' '' @ stitle @ [nl, nl]
                  @ concat (map (\<lambda>member. if name member = ''memberdef''
                                            then renderMember config member 3 else [])
                                (children section))))
              (childrenNamed compound ''sectiondef'')))"

text \<open>\<^verbatim>\<open>Converter::renderDocument\<close>\<close>

definition renderDocument :: "Config \<Rightarrow> XmlNode \<Rightarrow> string" where
  "renderDocument config root =
     (if name root = ''doxygen'' then
        concat (map (\<lambda>comp. renderCompound config comp @ [nl])
                    (childrenNamed root ''compounddef''))
      else if name root = ''compounddef'' then renderCompound config root
      else wrapUnknown root)"

section \<open>The parser\<close>

text \<open>
  Every failure of the parser is a \<^verbatim>\<open>std::runtime_error\<close> thrown and never caught inside
  the parser: the taxonomy of malformed documents. One constructor per \<^verbatim>\<open>throw\<close>, in the
  order of the source; the mismatched closing tag carries the closing name and the open name,
  the missing \<^verbatim>\<open><\<close> its position. A function that can throw returns a sum, the error
  on the left.
\<close>

datatype MalformedDocument =
    UnexpectedEnd
  | ExpectedOpen nat
  | ExpectedEquals
  | ExpectedQuote
  | UnterminatedValue
  | ExpectedClose
  | MismatchedClosingTag string string
  | ExpectedCloseAfterClosingTag

text \<open>
  \<^verbatim>\<open>XmlParser\<close> holds the input \<^verbatim>\<open>data_\<close>, never changed, and the cursor \<^verbatim>\<open>pos_\<close>.
  Each member function takes the input \<open>d\<close> and the cursor \<open>p\<close> and returns the new
  cursor with its result. \<^verbatim>\<open>peek\<close> and \<^verbatim>\<open>get\<close> return the NUL character at the end of
  input, \<^verbatim>\<open>get\<close> without moving. \<^verbatim>\<open>substr\<close> is \<^verbatim>\<open>data_.substr(pos, n)\<close>, which is
  cut at the end of the input. The cursor is moved only over input that was matched, so it
  stays within the input.
\<close>

definition eof :: "string \<Rightarrow> nat \<Rightarrow> bool" where
  "eof d p = (length d \<le> p)"

definition peek :: "string \<Rightarrow> nat \<Rightarrow> char" where
  "peek d p = (if eof d p then CHR 0x00 else d ! p)"

definition get :: "string \<Rightarrow> nat \<Rightarrow> char \<times> nat" where
  "get d p = (if eof d p then (CHR 0x00, p) else (d ! p, p + 1))"

definition substr :: "string \<Rightarrow> nat \<Rightarrow> nat \<Rightarrow> string" where
  "substr d p n = take n (drop p d)"

definition startsWith :: "string \<Rightarrow> nat \<Rightarrow> string \<Rightarrow> bool" where
  "startsWith d p s = (substr d p (length s) = s)"

text \<open>\<^verbatim>\<open>std::isspace\<close> and \<^verbatim>\<open>std::isalnum\<close> of the C locale, on the byte.\<close>

definition isspace :: "char \<Rightarrow> bool" where
  "isspace c = (c \<in> {CHR '' '', CHR 0x09, CHR 0x0A, CHR 0x0B, CHR 0x0C, CHR 0x0D})"

definition isalnum :: "char \<Rightarrow> bool" where
  "isalnum c = (let n = (of_char c :: nat) in
     (48 \<le> n \<and> n \<le> 57) \<or> (65 \<le> n \<and> n \<le> 90) \<or> (97 \<le> n \<and> n \<le> 122))"

function skipWhitespace :: "string \<Rightarrow> nat \<Rightarrow> nat" where
  "skipWhitespace d p =
     (if \<not> eof d p \<and> isspace (peek d p) then skipWhitespace d (p + 1) else p)"
  by pat_completeness auto
termination
  by (relation "measure (\<lambda>(d, p). length d - p)") (auto simp: eof_def)

text \<open>
  \<^verbatim>\<open>parseName\<close>: the loop moves the cursor over name characters; the name is the input
  between the start and the cursor.
\<close>

function parseName_loop :: "string \<Rightarrow> nat \<Rightarrow> nat" where
  "parseName_loop d p =
     (if \<not> eof d p then
        (let c = peek d p in
         if isalnum c \<or> c = CHR ''_'' \<or> c = CHR ''-'' \<or> c = CHR '':''
         then parseName_loop d (p + 1) else p)
      else p)"
  by pat_completeness auto
termination
  by (relation "measure (\<lambda>(d, p). length d - p)") (auto simp: eof_def)

definition parseName :: "string \<Rightarrow> nat \<Rightarrow> string \<times> nat" where
  "parseName d p = (let start = p; p = parseName_loop d p in (substr d start (p - start), p))"

text \<open>
  \<^verbatim>\<open>data_.find(marker, pos_)\<close>: the first position from \<open>p\<close> on where the marker stands,
  none when there is no such position. \<^verbatim>\<open>parseUntil\<close> throws then; otherwise it returns the
  input up to the marker and leaves the cursor on the marker.
\<close>

function find_from :: "string \<Rightarrow> string \<Rightarrow> nat \<Rightarrow> nat option" where
  "find_from d marker p =
     (if length d < p + length marker then None
      else if substr d p (length marker) = marker then Some p
      else find_from d marker (p + 1))"
  by pat_completeness auto
termination
  by (relation "measure (\<lambda>(d, marker, p). Suc (length d) - p)") auto

definition parseUntil :: "string \<Rightarrow> nat \<Rightarrow> string \<Rightarrow> MalformedDocument + string \<times> nat" where
  "parseUntil d p marker =
     (case find_from d marker p of
        None \<Rightarrow> Inl UnexpectedEnd
      | Some found \<Rightarrow> Inr (substr d p (found - p), found))"

text \<open>
  \<^verbatim>\<open>decodeEntities\<close>: the loop over the index \<open>i\<close>; an entity adds its length minus one to
  the index before the loop's own increment.
\<close>

function decodeEntities_loop :: "string \<Rightarrow> nat \<Rightarrow> string \<Rightarrow> string" where
  "decodeEntities_loop t i out =
     (if i < length t then
        (if t ! i = CHR ''&'' then
           (if substr t i 4 = ''&lt;'' then decodeEntities_loop t (i + 3 + 1) (out @ ''<'')
            else if substr t i 4 = ''&gt;'' then decodeEntities_loop t (i + 3 + 1) (out @ ''>'')
            else if substr t i 5 = ''&amp;'' then decodeEntities_loop t (i + 4 + 1) (out @ ''&'')
            else if substr t i 6 = ''&quot;'' then decodeEntities_loop t (i + 5 + 1) (out @ [dq])
            else if substr t i 6 = ''&apos;'' then decodeEntities_loop t (i + 5 + 1) (out @ [CHR 0x27])
            else decodeEntities_loop t (i + 1) (out @ ''&''))
         else decodeEntities_loop t (i + 1) (out @ [t ! i]))
      else out)"
  by pat_completeness auto
termination
  by (relation "measure (\<lambda>(t, i, out). length t - i)") auto

declare decodeEntities_loop.simps [simp del]

definition decodeEntities :: "string \<Rightarrow> string" where
  "decodeEntities t = decodeEntities_loop t 0 []"


text \<open>
  The attribute loop of \<^verbatim>\<open>parseNode\<close>, and inside it the loop that collects the quoted
  value.
\<close>

function scanValue :: "string \<Rightarrow> nat \<Rightarrow> char \<Rightarrow> string \<Rightarrow> string \<times> nat" where
  "scanValue d p quote val =
     (if \<not> eof d p \<and> peek d p \<noteq> quote then
        (case get d p of (c, p') \<Rightarrow> scanValue d p' quote (val @ [c]))
      else (val, p))"
  by pat_completeness auto
termination
  by (relation "measure (\<lambda>(d, p, quote, val). length d - p)") (auto simp: eof_def get_def)

declare skipWhitespace.simps [simp del] parseName_loop.simps [simp del]
  find_from.simps [simp del] scanValue.simps [simp del]

lemma skipWhitespace_ge: "p \<le> skipWhitespace d p"
proof (induction d p rule: skipWhitespace.induct)
  case (1 d p)
  show ?case
  proof (cases "\<not> eof d p \<and> isspace (peek d p)")
    case True
    then have "skipWhitespace d p = skipWhitespace d (p + 1)"
      by (subst skipWhitespace.simps) simp
    with 1 True show ?thesis by simp
  next
    case False
    then show ?thesis by (subst skipWhitespace.simps) auto
  qed
qed

lemma parseName_loop_ge: "p \<le> parseName_loop d p"
proof (induction d p rule: parseName_loop.induct)
  case (1 d p)
  show ?case
    using 1 by (subst parseName_loop.simps) (auto simp: Let_def dest: Suc_leD)
qed

lemma parseName_ge: "parseName d p = (n, p') \<Longrightarrow> p \<le> p'"
  using parseName_loop_ge [of p d] by (auto simp: parseName_def Let_def)

lemma get_ge: "get d p = (c, p') \<Longrightarrow> p \<le> p'"
  by (auto simp: get_def split: if_splits)

lemma get_gt: "get d p = (c, p') \<Longrightarrow> c \<noteq> CHR 0x00 \<Longrightarrow> p < p' \<and> p < length d"
  by (auto simp: get_def eof_def split: if_splits)

lemma scanValue_ge: "scanValue d p q v = (v', p') \<Longrightarrow> p \<le> p'"
proof (induction d p q v rule: scanValue.induct)
  case (1 d p quote val)
  show ?case
  proof (cases "\<not> eof d p \<and> peek d p \<noteq> quote")
    case True
    then have "scanValue d p quote val = scanValue d (p + 1) quote (val @ [d ! p])"
      by (subst scanValue.simps) (simp add: get_def)
    with 1 True show ?thesis by (fastforce simp: get_def dest: Suc_leD)
  next
    case False
    with 1 show ?thesis by (subst (asm) scanValue.simps) auto
  qed
qed

function parseAttributes ::
  "string \<Rightarrow> nat \<Rightarrow> XmlAttribute list \<Rightarrow> MalformedDocument + XmlAttribute list \<times> nat" where
  "parseAttributes d p attrs =
     (if \<not> eof d p \<and> \<not> startsWith d p ''>'' \<and> \<not> startsWith d p ''/>'' then
        (case parseName d p of (attrName, p1) \<Rightarrow>
         (case get d (skipWhitespace d p1) of (c, p2) \<Rightarrow>
         if c \<noteq> CHR ''='' then Inl ExpectedEquals
         else
           (case get d (skipWhitespace d p2) of (quote, p3) \<Rightarrow>
            if quote \<noteq> dq \<and> quote \<noteq> CHR 0x27 then Inl ExpectedQuote
            else
              (case scanValue d p3 quote [] of (val, p4) \<Rightarrow>
               (case get d p4 of (c', p5) \<Rightarrow>
               if c' \<noteq> quote then Inl UnterminatedValue
               else parseAttributes d (skipWhitespace d p5)
                      (attrs @ [XmlAttribute attrName (decodeEntities val)]))))))
      else Inr (attrs, p))"
  by pat_completeness auto
termination
proof (relation "measure (\<lambda>(d, p, attrs). length d - p)", goal_cases)
  case 1
  show ?case by simp
next
  case (2 d p attrs attrName p1 c p2 quote p3 val p4 c' p5)
  have "p \<le> p1"
    using 2(2) [symmetric] by (rule parseName_ge)
  moreover have "skipWhitespace d p1 < p2"
    using get_gt [OF 2(3) [symmetric]] 2(4) by simp
  moreover have "skipWhitespace d p2 \<le> p3"
    using 2(5) [symmetric] by (rule get_ge)
  moreover have "p3 \<le> p4"
    using 2(7) [symmetric] by (rule scanValue_ge)
  moreover have "p4 \<le> p5"
    using 2(8) [symmetric] by (rule get_ge)
  moreover note skipWhitespace_ge [of p1 d] skipWhitespace_ge [of p2 d]
    skipWhitespace_ge [of p5 d]
  ultimately show ?case
    using 2(1) by (auto simp: eof_def)
qed

declare parseAttributes.simps [simp del]

lemma parseAttributes_ge: "parseAttributes d p attrs = Inr (attrs', p') \<Longrightarrow> p \<le> p'"
proof (induction d p attrs rule: parseAttributes.induct)
  case (1 d p attrs)
  show ?case
  proof (cases "\<not> eof d p \<and> \<not> startsWith d p ''>'' \<and> \<not> startsWith d p ''/>''")
    case False
    with 1(2) show ?thesis
      by (subst (asm) parseAttributes.simps) auto
  next
    case True
    obtain attrName p1 where n: "parseName d p = (attrName, p1)" by force
    obtain c p2 where g1: "get d (skipWhitespace d p1) = (c, p2)" by force
    obtain quote p3 where g2: "get d (skipWhitespace d p2) = (quote, p3)" by force
    obtain val p4 where v: "scanValue d p3 quote [] = (val, p4)" by force
    obtain c' p5 where g3: "get d p4 = (c', p5)" by force
    from 1(2) True n g1 g2 v g3
    have ok: "c = CHR ''=''" "quote = dq \<or> quote = CHR 0x27" "c' = quote"
      and rec: "parseAttributes d (skipWhitespace d p5)
          (attrs @ [XmlAttribute attrName (decodeEntities val)]) = Inr (attrs', p')"
      by (subst (asm) parseAttributes.simps; simp split: if_splits)+
    have "skipWhitespace d p5 \<le> p'"
      using 1(1) [OF True n [symmetric] g1 [symmetric] _ g2 [symmetric] _ v [symmetric]
          g3 [symmetric] _ rec] ok by simp
    moreover note parseName_ge [OF n] get_ge [OF g1] get_ge [OF g2] scanValue_ge [OF v]
      get_ge [OF g3] skipWhitespace_ge [of p1 d] skipWhitespace_ge [of p2 d]
      skipWhitespace_ge [of p5 d]
    ultimately show ?thesis by simp
  qed
qed


lemma find_from_bounds:
  "find_from d m p = Some f \<Longrightarrow> p \<le> f \<and> f + length m \<le> length d"
proof (induction d m p rule: find_from.induct)
  case (1 d marker p)
  from 1(2) have inb: "\<not> length d < p + length marker"
    by (subst (asm) find_from.simps) (simp split: if_splits)
  show ?case
  proof (cases "substr d p (length marker) = marker")
    case True
    with 1(2) inb have "f = p"
      by (subst (asm) find_from.simps) simp
    with inb show ?thesis by simp
  next
    case False
    with 1(2) inb have "find_from d marker (p + 1) = Some f"
      by (subst (asm) find_from.simps) simp
    from 1(1) [OF inb False this] show ?thesis by simp
  qed
qed

lemma parseUntil_bounds:
  "parseUntil d p m = Inr (t, f) \<Longrightarrow> p \<le> f \<and> f + length m \<le> length d"
  by (auto simp: parseUntil_def split: option.splits dest: find_from_bounds)

lemma startsWith_not_eof: "startsWith d p (c # s) \<Longrightarrow> p < length d"
  by (cases "p < length d") (auto simp: startsWith_def substr_def)

text \<open>
  \<^verbatim>\<open>parseNode\<close>. \<open>parseContent\<close> is its \<^verbatim>\<open>while (!eof())\<close> loop over the content of
  the element, with the node built so far and the text buffer, followed by the statements after
  the loop: the loop ends at the closing tag (\<^verbatim>\<open>break\<close>) or at the end of input, and the
  pending text is then appended as a last text node. \<open>flushText\<close> is the statement
  \<^verbatim>\<open>if (!textBuffer.empty()) node.children.push_back(XmlNode{"#text", decodeEntities(textBuffer), {}, {}})\<close>
  and \<open>push_child\<close> is \<^verbatim>\<open>node.children.push_back\<close>.
\<close>

definition flushText :: "XmlNode \<Rightarrow> string \<Rightarrow> XmlNode" where
  "flushText node textBuffer =
     (if textBuffer \<noteq> [] then
        XmlNode (name node) (node_text node) (attributes node)
          (children node @ [XmlNode ''#text'' (decodeEntities textBuffer) [] []])
      else node)"

definition push_child :: "XmlNode \<Rightarrow> XmlNode \<Rightarrow> XmlNode" where
  "push_child node c =
     XmlNode (name node) (node_text node) (attributes node) (children node @ [c])"

function parseNode :: "string \<Rightarrow> nat \<Rightarrow> MalformedDocument + XmlNode \<times> nat"
  and parseContent ::
    "string \<Rightarrow> nat \<Rightarrow> XmlNode \<Rightarrow> string \<Rightarrow> MalformedDocument + XmlNode \<times> nat"
where
  "parseNode d p =
     (if \<not> startsWith d p ''<'' then Inl (ExpectedOpen p)
      else (case get d p of (c0, p0) \<Rightarrow>
        if startsWith d p0 ''!--'' then
          (case parseUntil d (p0 + 3) ''-->'' of
             Inl e \<Rightarrow> Inl e
           | Inr (skipped, found) \<Rightarrow> parseNode d (skipWhitespace d (found + 3)))
        else if startsWith d p0 ''![CDATA['' then
          (case parseUntil d (p0 + 8) '']]>'' of
             Inl e \<Rightarrow> Inl e
           | Inr (cdata, found) \<Rightarrow> Inr (XmlNode ''#text'' cdata [] [], found + 3))
        else
          (case parseName d p0 of (nm, p1) \<Rightarrow>
           (case parseAttributes d (skipWhitespace d p1) [] of
             Inl e \<Rightarrow> Inl e
           | Inr (attrs, p2) \<Rightarrow>
               if startsWith d p2 ''/>'' then Inr (XmlNode nm [] attrs [], p2 + 2)
               else
                 (case get d p2 of (c, p3) \<Rightarrow>
                  if c \<noteq> CHR ''>'' then Inl ExpectedClose
                  else parseContent d p3 (XmlNode nm [] attrs []) [])))))"
| "parseContent d p node textBuffer =
     (if \<not> eof d p then
        (if startsWith d p ''</'' then
           (case parseName d (p + 2) of (endName, p1) \<Rightarrow>
            if endName \<noteq> name node then Inl (MismatchedClosingTag endName (name node))
            else
              (case get d (skipWhitespace d p1) of (c, p2) \<Rightarrow>
               if c \<noteq> CHR ''>'' then Inl ExpectedCloseAfterClosingTag
               else Inr (flushText node textBuffer, p2)))
         else if startsWith d p ''<![CDATA['' then
           (case parseUntil d (p + 9) '']]>'' of
              Inl e \<Rightarrow> Inl e
            | Inr (cdata, found) \<Rightarrow>
                parseContent d (found + 3)
                  (push_child (flushText node textBuffer) (XmlNode ''#text'' cdata [] [])) [])
         else if startsWith d p ''<!--'' then
           (case parseUntil d (p + 4) ''-->'' of
              Inl e \<Rightarrow> Inl e
            | Inr (skipped, found) \<Rightarrow> parseContent d (found + 3) node textBuffer)
         else if startsWith d p ''<'' then
           (case parseNode d p of
              Inl e \<Rightarrow> Inl e
            | Inr (c, p') \<Rightarrow> parseContent d p' (push_child (flushText node textBuffer) c) [])
         else
           (case get d p of (c, p') \<Rightarrow> parseContent d p' node (textBuffer @ [c])))
      else Inr (flushText node textBuffer, p))"
  by pat_completeness auto


text \<open>
  A successful \<^verbatim>\<open>parseNode\<close> moves the cursor forward, which is why the loop that calls it
  ends.
\<close>

lemma get_gt': "get d p = (c, p') \<Longrightarrow> \<not> eof d p \<Longrightarrow> p' = p + 1"
  by (auto simp: get_def)

lemma parse_progress:
  shows "parseNode_parseContent_dom (Inl (d, p)) \<Longrightarrow>
           (\<forall>n p'. parseNode d p = Inr (n, p') \<longrightarrow> p < p')"
    and "parseNode_parseContent_dom (Inr (d, p, node, textBuffer)) \<Longrightarrow>
           (\<forall>n p'. parseContent d p node textBuffer = Inr (n, p') \<longrightarrow> p \<le> p')"
proof (induct rule: parseNode_parseContent.pinduct)
  case (1 d p)
  show ?case
  proof (intro allI impI)
    fix n p'
    assume res: "parseNode d p = Inr (n, p')"
    from res have lt: "startsWith d p ''<''"
      by (subst (asm) parseNode.psimps [OF 1(1)]) (simp split: if_splits)
    then have g: "get d p = (d ! p, p + 1)"
      by (auto simp: get_def eof_def dest: startsWith_not_eof)
    show "p < p'"
    proof (cases "startsWith d (p + 1) ''!--''")
      case True
      with res lt g obtain skipped found where
        u: "parseUntil d (p + 1 + 3) ''-->'' = Inr (skipped, found)"
        and r: "parseNode d (skipWhitespace d (found + 3)) = Inr (n, p')"
        by (subst (asm) parseNode.psimps [OF 1(1)]) (auto split: sum.splits)
      have "skipWhitespace d (found + 3) < p'"
        using 1(2) [OF _ g [symmetric] True u refl] lt r by simp
      with parseUntil_bounds [OF u] skipWhitespace_ge [of "found + 3" d]
      show ?thesis by simp
    next
      case nc: False
      show ?thesis
      proof (cases "startsWith d (p + 1) ''![CDATA[''")
        case True
        with res lt g nc obtain cdata found where
          u: "parseUntil d (p + 1 + 8) '']]>'' = Inr (cdata, found)"
          and r: "p' = found + 3"
          by (subst (asm) parseNode.psimps [OF 1(1)]) (auto split: sum.splits)
        with parseUntil_bounds [OF u] show ?thesis by simp
      next
        case ncd: False
        obtain nm p1 where pn: "parseName d (p + 1) = (nm, p1)" by force
        from res lt g nc ncd pn obtain attrs p2 where
          pa: "parseAttributes d (skipWhitespace d p1) [] = Inr (attrs, p2)"
          by (subst (asm) parseNode.psimps [OF 1(1)]) (auto split: sum.splits)
        have p2: "p + 1 \<le> p2"
          using parseName_ge [OF pn] parseAttributes_ge [OF pa] skipWhitespace_ge [of p1 d]
          by simp
        show ?thesis
        proof (cases "startsWith d p2 ''/>''")
          case True
          with res lt g nc ncd pn pa have "p' = p2 + 2"
            by (subst (asm) parseNode.psimps [OF 1(1)]) auto
          with p2 show ?thesis by simp
        next
          case nsc: False
          obtain c p3 where g2: "get d p2 = (c, p3)" by force
          from res lt g nc ncd pn pa nsc g2 have c: "c = CHR ''>''"
            and r: "parseContent d p3 (XmlNode nm [] attrs []) [] = Inr (n, p')"
            by (subst (asm) parseNode.psimps [OF 1(1)]; simp split: if_splits)+
          have "p3 \<le> p'"
            using 1(3) [OF _ g [symmetric] nc ncd pn [symmetric] pa refl nsc g2 [symmetric]]
              lt c r by simp
          with p2 get_ge [OF g2] show ?thesis by simp
        qed
      qed
    qed
  qed
next
  case (2 d p node textBuffer)
  show ?case
  proof (intro allI impI)
    fix n p'
    assume res: "parseContent d p node textBuffer = Inr (n, p')"
    show "p \<le> p'"
    proof (cases "eof d p")
      case True
      with res show ?thesis
        by (subst (asm) parseContent.psimps [OF 2(1)]) simp
    next
      case ne: False
      show ?thesis
      proof (cases "startsWith d p ''</''")
        case True
        obtain endName p1 where pn: "parseName d (p + 2) = (endName, p1)" by force
        obtain c p2 where g: "get d (skipWhitespace d p1) = (c, p2)" by force
        from res ne True pn g have "p' = p2"
          by (subst (asm) parseContent.psimps [OF 2(1)]) (simp split: if_splits)
        with parseName_ge [OF pn] get_ge [OF g] skipWhitespace_ge [of p1 d]
        show ?thesis by simp
      next
        case nclose: False
        show ?thesis
        proof (cases "startsWith d p ''<![CDATA[''")
          case True
          with res ne nclose obtain cdata found where
            u: "parseUntil d (p + 9) '']]>'' = Inr (cdata, found)"
            and r: "parseContent d (found + 3)
                  (push_child (flushText node textBuffer) (XmlNode ''#text'' cdata [] [])) []
                = Inr (n, p')"
            by (subst (asm) parseContent.psimps [OF 2(1)]) (auto split: sum.splits)
          have "found + 3 \<le> p'"
            using 2(2) [OF ne nclose True u refl] r by simp
          with parseUntil_bounds [OF u] show ?thesis by simp
        next
          case ncd: False
          show ?thesis
          proof (cases "startsWith d p ''<!--''")
            case True
            with res ne nclose ncd obtain skipped found where
              u: "parseUntil d (p + 4) ''-->'' = Inr (skipped, found)"
              and r: "parseContent d (found + 3) node textBuffer = Inr (n, p')"
              by (subst (asm) parseContent.psimps [OF 2(1)]) (auto split: sum.splits)
            have "found + 3 \<le> p'"
              using 2(3) [OF ne nclose ncd True u refl] r by simp
            with parseUntil_bounds [OF u] show ?thesis by simp
          next
            case ncm: False
            show ?thesis
            proof (cases "startsWith d p ''<''")
              case True
              with res ne nclose ncd ncm obtain c p1 where
                u: "parseNode d p = Inr (c, p1)"
                and r: "parseContent d p1 (push_child (flushText node textBuffer) c) []
                    = Inr (n, p')"
                by (subst (asm) parseContent.psimps [OF 2(1)]) (auto split: sum.splits)
              have "p < p1"
                using 2(4) [OF ne nclose ncd ncm True] u by simp
              moreover have "p1 \<le> p'"
                using 2(5) [OF ne nclose ncd ncm True u refl] r by simp
              ultimately show ?thesis by simp
            next
              case False
              obtain c p1 where g: "get d p = (c, p1)" by force
              from res ne nclose ncd ncm False g
              have r: "parseContent d p1 node (textBuffer @ [c]) = Inr (n, p')"
                by (subst (asm) parseContent.psimps [OF 2(1)]) simp
              have "p1 \<le> p'"
                using 2(6) [OF ne nclose ncd ncm False g [symmetric]] r by simp
              with get_ge [OF g] show ?thesis by simp
            qed
          qed
        qed
      qed
    qed
  qed
qed


termination parseNode
proof (relation "measure (\<lambda>x. case x of Inl (d, p) \<Rightarrow> 2 * (length d - p)
                                | Inr (d, p, node, buf) \<Rightarrow> 2 * (length d - p) + 1)",
    goal_cases)
  case 1
  show ?case by simp
next
  case (2 d p c0 p0 b skipped found)
  have "p < length d"
    using 2(1) by (auto dest: startsWith_not_eof)
  moreover have "p \<le> p0"
    using 2(2) [symmetric] by (rule get_ge)
  moreover have "p0 + 3 \<le> found \<and> found + 3 \<le> length d"
    using parseUntil_bounds [of d "p0 + 3" "''-->''" skipped found] 2(4,5) by simp
  moreover note skipWhitespace_ge [of "found + 3" d]
  ultimately show ?case by auto
next
  case (3 d p c0 p0 nm p1 b attrs p2 c p3)
  have "p < length d"
    using 3(1) by (auto dest: startsWith_not_eof)
  moreover have "p0 = p + 1"
    using get_gt' [OF 3(2) [symmetric]] \<open>p < length d\<close> by (simp add: eof_def)
  moreover have "p0 \<le> p1"
    using 3(5) [symmetric] by (rule parseName_ge)
  moreover have "skipWhitespace d p1 \<le> p2"
    using parseAttributes_ge [of d "skipWhitespace d p1" "[]" attrs p2] 3(6,7) by simp
  moreover have "p2 \<le> p3"
    using 3(9) [symmetric] by (rule get_ge)
  moreover note skipWhitespace_ge [of p1 d]
  ultimately show ?case by auto
next
  case (4 d p node textBuffer b cdata found)
  have "p + 9 \<le> found"
    using parseUntil_bounds [of d "p + 9" "'']]>''" cdata found] 4(4,5) by simp
  with 4(1) show ?case by (simp add: eof_def)
next
  case (5 d p node textBuffer b skipped found)
  have "p + 4 \<le> found"
    using parseUntil_bounds [of d "p + 4" "''-->''" skipped found] 5(5,6) by simp
  with 5(1) show ?case by (simp add: eof_def)
next
  case (6 d p node textBuffer)
  show ?case by simp
next
  case (7 d p node textBuffer b c p')
  have "p < p'"
    using parse_progress(1) [OF 7(8)] 7(6,7) by auto
  with 7(1) show ?case by (simp add: eof_def)
next
  case (8 d p node textBuffer c p')
  have "p' = p + 1"
    using get_gt' [OF 8(6) [symmetric] 8(1)] .
  with 8(1) show ?case by (simp add: eof_def)
qed

declare parseNode.simps [simp del] parseContent.simps [simp del]

text \<open>
  \<^verbatim>\<open>XmlParser::parse\<close>. \<open>skipProlog\<close> is everything before its last statement: white
  space, the declaration prologue and the document type are skipped. The last statement is the
  call of \<^verbatim>\<open>parseNode\<close>, whose node is the result.
\<close>

definition skipProlog :: "string \<Rightarrow> MalformedDocument + nat" where
  "skipProlog d =
     (let p = skipWhitespace d 0 in
      case (if startsWith d p ''<?'' then
              (case parseUntil d p ''?>'' of
                 Inl e \<Rightarrow> Inl e
               | Inr (skipped, found) \<Rightarrow> Inr (skipWhitespace d (found + 2)))
            else Inr p) of
        Inl e \<Rightarrow> Inl e
      | Inr p \<Rightarrow>
          if startsWith d p ''<!DOCTYPE'' then
            (case parseUntil d p ''>'' of
               Inl e \<Rightarrow> Inl e
             | Inr (skipped, found) \<Rightarrow> Inr (skipWhitespace d (snd (get d found))))
          else Inr p)"

definition parse :: "string \<Rightarrow> MalformedDocument + XmlNode" where
  "parse d =
     (case skipProlog d of
        Inl e \<Rightarrow> Inl e
      | Inr p \<Rightarrow>
          (case parseNode d p of
             Inl e \<Rightarrow> Inl e
           | Inr (node, p') \<Rightarrow> Inr node))"

section \<open>Notions used to state the properties\<close>

text \<open>
  The opening tag that \<^verbatim>\<open>parseNode\<close> reads at \<open>p\<close> before it enters its content loop:
  the element without children and the cursor behind \<^verbatim>\<open>>\<close>; none when what stands at
  \<open>p\<close> is no opening tag (a comment, a CDATA section, a self-closing tag, a malformed tag).
\<close>

definition openTag :: "string \<Rightarrow> nat \<Rightarrow> (XmlNode \<times> nat) option" where
  "openTag d p =
     (if startsWith d p ''<'' \<and> \<not> startsWith d (p + 1) ''!--''
         \<and> \<not> startsWith d (p + 1) ''![CDATA['' then
        (case parseName d (p + 1) of (nm, p1) \<Rightarrow>
         (case parseAttributes d (skipWhitespace d p1) [] of
            Inl e \<Rightarrow> None
          | Inr (attrs, p2) \<Rightarrow>
              if startsWith d p2 ''/>'' then None
              else (case get d p2 of (c, p3) \<Rightarrow>
                      if c = CHR ''>'' then Some (XmlNode nm [] attrs [], p3) else None)))
      else None)"

text \<open>
  The control points of a parse of the document \<open>d\<close>. \<open>nodeCall d p\<close>: \<^verbatim>\<open>parseNode\<close> is
  called with the cursor at \<open>p\<close>. \<open>contentAt d nm p\<close>: the content loop of an open element
  named \<open>nm\<close> is at its loop head with the cursor at \<open>p\<close>; \<open>nm\<close> is the currently open
  element. One rule per way the parser gets from one control point to the next.
\<close>

inductive nodeCall :: "string \<Rightarrow> nat \<Rightarrow> bool"
  and contentAt :: "string \<Rightarrow> string \<Rightarrow> nat \<Rightarrow> bool"
where
  root: "skipProlog d = Inr p \<Longrightarrow> nodeCall d p"
| leading_comment:
    "nodeCall d p \<Longrightarrow> startsWith d p ''<!--'' \<Longrightarrow>
     parseUntil d (p + 4) ''-->'' = Inr (skipped, found) \<Longrightarrow>
     nodeCall d (skipWhitespace d (found + 3))"
| enter: "nodeCall d p \<Longrightarrow> openTag d p = Some (node, p') \<Longrightarrow> contentAt d (name node) p'"
| character:
    "contentAt d nm p \<Longrightarrow> \<not> eof d p \<Longrightarrow> \<not> startsWith d p ''<'' \<Longrightarrow> contentAt d nm (p + 1)"
| cdata:
    "contentAt d nm p \<Longrightarrow> startsWith d p ''<![CDATA['' \<Longrightarrow>
     parseUntil d (p + 9) '']]>'' = Inr (text, found) \<Longrightarrow> contentAt d nm (found + 3)"
| comment:
    "contentAt d nm p \<Longrightarrow> startsWith d p ''<!--'' \<Longrightarrow>
     parseUntil d (p + 4) ''-->'' = Inr (skipped, found) \<Longrightarrow> contentAt d nm (found + 3)"
| child:
    "contentAt d nm p \<Longrightarrow> startsWith d p ''<'' \<Longrightarrow> \<not> startsWith d p ''</'' \<Longrightarrow>
     \<not> startsWith d p ''<![CDATA['' \<Longrightarrow> \<not> startsWith d p ''<!--'' \<Longrightarrow> nodeCall d p"
| after_child:
    "contentAt d nm p \<Longrightarrow> startsWith d p ''<'' \<Longrightarrow> \<not> startsWith d p ''</'' \<Longrightarrow>
     \<not> startsWith d p ''<![CDATA['' \<Longrightarrow> \<not> startsWith d p ''<!--'' \<Longrightarrow>
     parseNode d p = Inr (c, p') \<Longrightarrow> contentAt d nm p'"

text \<open>The characters \<^verbatim>\<open>parseName\<close> accepts in a name.\<close>

definition isNameChar :: "char \<Rightarrow> bool" where
  "isNameChar c = (isalnum c \<or> c = CHR ''_'' \<or> c = CHR ''-'' \<or> c = CHR '':'')"

text \<open>The text node that a run of character data becomes: none for an empty run.\<close>

definition textNodes :: "string \<Rightarrow> XmlNode list" where
  "textNodes t = (if t = [] then [] else [XmlNode ''#text'' (decodeEntities t) [] []])"

text \<open>The marker \<open>m\<close> stands in \<open>s\<close> at no position before \<open>n\<close>.\<close>

definition noMarkerBefore :: "string \<Rightarrow> string \<Rightarrow> nat \<Rightarrow> bool" where
  "noMarkerBefore m s n = (\<forall>k < n. take (length m) (drop k s) \<noteq> m)"

text \<open>
  Two notions used to state what \<^verbatim>\<open>renderTable\<close> produces: the cells of a row are the
  inline renderings of the children of each of its \<^verbatim>\<open>entry\<close> children, and a row is
  written between \<^verbatim>\<open><tr>\<close> and \<^verbatim>\<open></tr>\<close> with newline, its cells in \<^verbatim>\<open>th\<close> (header) or
  \<^verbatim>\<open>td\<close> (body) elements.
\<close>

definition rowCells :: "XmlNode \<Rightarrow> string list" where
  "rowCells row = map (\<lambda>entry. concat (map renderNodeInline (children entry)))
                      (childrenNamed row ''entry'')"

definition renderRow :: "bool \<Rightarrow> string list \<Rightarrow> string" where
  "renderRow header cells =
     ''<tr>''
     @ concat (map (\<lambda>cell. (if header then ''<th>'' else ''<td>'') @ cell
                             @ (if header then ''</th>'' else ''</td>'')) cells)
     @ ''</tr>'' @ [nl]"

text \<open>The configuration \<^verbatim>\<open>parseConfig\<close> starts from.\<close>

definition defaultConfig :: Config where
  "defaultConfig = \<lparr>inputXmlDir = ''docs/build/xml'', outputMdxDir = ''docs/mdx'',
     cssOutputPath = ''docs/doxygen.css'', projectName = ''Project'',
     headingOffset = 0, emitIndex = True\<rparr>"

section \<open>Properties of the renderer\<close>

text \<open>
  C2. The heading marker consists of \<^verbatim>\<open>#\<close> characters only, and their number is the sum
  \<^verbatim>\<open>level + offset\<close> clamped to the range 1..6, for every level and every offset,
  negative ones included; so there are never fewer than 1 nor more than 6. The sum is the
  code's \<^verbatim>\<open>int\<close> addition. Whenever the mathematical sum of the two values is itself an
  \<^verbatim>\<open>int\<close>, the number is that sum clamped. Level 1 with offset 10 gives six characters.
\<close>

theorem heading_clamp:
  "heading level offset
     = replicate (nat (max 1 (min 6 (sint (level + offset))))) (CHR ''#'')
   \<and> 1 \<le> length (heading level offset) \<and> length (heading level offset) \<le> 6
   \<and> (- (2 ^ 31) \<le> sint level + sint offset \<and> sint level + sint offset < 2 ^ 31
        \<longrightarrow> length (heading level offset)
              = nat (max 1 (min 6 (sint level + sint offset))))
   \<and> heading 1 10 = ''######''"
proof -
  have eq: "heading level offset
      = replicate (nat (max 1 (min 6 (sint (level + offset))))) (CHR ''#'')"
    unfolding heading_def Let_def
    by (auto simp: word_sless_alt max_def min_def)
  have range: "sint (level + offset) = sint level + sint offset"
    if "- (2 ^ 31) \<le> sint level + sint offset" "sint level + sint offset < 2 ^ 31"
    using that by (simp add: sint_word_ariths signed_take_bit_int_eq_self)
  have ex: "heading 1 10 = ''######''"
    by (simp add: heading_def Let_def word_sless_alt numeral_eq_Suc)
  from eq range ex show ?thesis
    by (auto simp: max_def min_def)
qed

theorem heading_clamp_witness:
  "- (2 ^ 31) \<le> sint (3 :: cint) + sint (- 7 :: cint)
   \<and> sint (3 :: cint) + sint (- 7 :: cint) < 2 ^ 31
   \<and> length (heading 3 (- 7)) = 1"
  using heading_clamp [of 3 "- 7"] by simp

text \<open>
  C1. \<^verbatim>\<open>renderNodeInline\<close> is defined for every node: its recursion, through the helpers,
  is well-founded on the size of the node, so it returns a text for every tree. For every node
  whose tag name is none of the ten handled ones, the result is the block wrapper with class
  \<^verbatim>\<open>doxygen-\<close> followed by the tag name, around the inline rendering of the children in
  order. The class is a function of the tag name alone.
\<close>

theorem unknown_fallback:
  assumes "name node \<notin> {''#text'', ''bold'', ''emphasis'', ''computeroutput'', ''ref'',
             ''itemizedlist'', ''orderedlist'', ''table'', ''programlisting'', ''para''}"
  shows "renderNodeInline node
           = ''<div class='' @ [dq] @ ''doxygen-'' @ name node @ [dq] @ ''>''
             @ concat (map renderNodeInline (children node)) @ ''</div>''"
proof -
  from assms have "renderNodeInline node = wrapUnknown node"
    by (subst renderNodeInline.simps) simp
  then show ?thesis
    by (simp only: wrapUnknown.simps)
qed

theorem unknown_fallback_witness:
  "name (XmlNode ''xrefsect'' [] [] [XmlNode ''#text'' ''hi'' [] []])
     \<notin> {''#text'', ''bold'', ''emphasis'', ''computeroutput'', ''ref'',
         ''itemizedlist'', ''orderedlist'', ''table'', ''programlisting'', ''para''}
   \<and> renderNodeInline (XmlNode ''xrefsect'' [] [] [XmlNode ''#text'' ''hi'' [] []])
       = ''<div class='' @ [dq] @ ''doxygen-xrefsect'' @ [dq] @ ''>hi</div>''"
  using unknown_fallback [of "XmlNode ''xrefsect'' [] [] [XmlNode ''#text'' ''hi'' [] []]"]
  by (simp add: renderNodeInline.simps)

text \<open>
  C7 does not hold as stated: with a \<^verbatim>\<open>definition\<close> child whose text is empty the heading
  shows the member name, not the definition followed by the arguments.
\<close>

theorem renderMember_empty_definition:
  "child (XmlNode ''memberdef'' [] []
            [XmlNode ''name'' [] [] [XmlNode ''#text'' ''f'' [] []],
             XmlNode ''definition'' [] [] [],
             XmlNode ''argsstring'' [] [] [XmlNode ''#text'' ''(int)'' [] []]])
         ''definition'' \<noteq> None
   \<and> renderMember defaultConfig
        (XmlNode ''memberdef'' [] []
            [XmlNode ''name'' [] [] [XmlNode ''#text'' ''f'' [] []],
             XmlNode ''definition'' [] [] [],
             XmlNode ''argsstring'' [] [] [XmlNode ''#text'' ''(int)'' [] []]]) 3
       = ''### f'' @ [nl, nl]"
  by (simp add: child_def renderMember_def defaultConfig_def heading_def Let_def
        word_sless_alt numeral_eq_Suc)

text \<open>
  C7, amended. The signature in the member heading is the text of the \<^verbatim>\<open>definition\<close> child
  followed by the text of the \<^verbatim>\<open>argsstring\<close> child (empty when absent) whenever the
  definition text is not empty; it is the member name (the text of the \<^verbatim>\<open>name\<close> child,
  \<^verbatim>\<open>member\<close> when absent) when there is no \<^verbatim>\<open>definition\<close> child or its text is empty.
  The heading is followed by a blank line and the brief and detailed descriptions.
\<close>

theorem renderMember_signature:
  "renderMember config member level
     = heading level (headingOffset config) @ '' ''
       @ (case child member ''definition'' of
            None \<Rightarrow> (case child member ''name'' of Some c \<Rightarrow> nodeText c | None \<Rightarrow> ''member'')
          | Some d \<Rightarrow>
              if nodeText d = []
              then (case child member ''name'' of Some c \<Rightarrow> nodeText c | None \<Rightarrow> ''member'')
              else nodeText d
                   @ (case child member ''argsstring'' of Some a \<Rightarrow> nodeText a | None \<Rightarrow> []))
       @ [nl, nl]
       @ (case child member ''briefdescription'' of
            Some brief \<Rightarrow> renderDescription brief | None \<Rightarrow> [])
       @ (case child member ''detaileddescription'' of
            Some detail \<Rightarrow> renderDescription detail | None \<Rightarrow> [])"
  by (simp add: renderMember_def Let_def split: option.splits)

text \<open>The loop over the row index, told apart by \<^verbatim>\<open>r == 0\<close>, is the first row and the rest.\<close>

lemma concat_index_head:
  "concat (map (\<lambda>r. F (r = 0) (rows ! r)) [0..<length rows])
     = (case rows of [] \<Rightarrow> [] | h # bs \<Rightarrow> F True h @ concat (map (F False) bs))"
proof (cases rows)
  case Nil
  then show ?thesis by simp
next
  case (Cons h bs)
  have "[0..<length (h # bs)] = 0 # map Suc [0..<length bs]"
    by (simp add: upt_conv_Cons map_Suc_upt del: upt_Suc)
  moreover have "map (\<lambda>r. F False (bs ! r)) [0..<length bs] = map (F False) bs"
    by (rule nth_equalityI) simp_all
  ultimately show ?thesis
    using Cons by (simp add: comp_def del: upt_Suc)
qed

lemma renderTable_unfold:
  "renderTable node =
     (case filter (\<lambda>cells. cells \<noteq> []) (map rowCells (childrenNamed node ''row'')) of
        [] \<Rightarrow> []
      | h # bs \<Rightarrow> ''<table class='' @ [dq] @ ''doxygen-table'' @ [dq] @ ''>'' @ [nl]
                  @ renderRow True h @ concat (map (renderRow False) bs)
                  @ ''</table>'' @ [nl])"
proof -
  define rows where
    "rows = filter (\<lambda>cells. cells \<noteq> []) (map rowCells (childrenNamed node ''row''))"
  have rows_eq: "rows = filter (\<lambda>cells. cells \<noteq> [])
            (map (\<lambda>row. map (\<lambda>entry. concat (map renderNodeInline (children entry)))
                             (filter (\<lambda>entry. name entry = ''entry'') (children row)))
                 (filter (\<lambda>row. name row = ''row'') (children node)))"
    by (simp add: rows_def rowCells_def [abs_def] childrenNamed_def)
  have loop: "concat (map (\<lambda>r. ''<tr>''
                 @ concat (map (\<lambda>cell. (if r = 0 then ''<th>'' else ''<td>'') @ cell
                                         @ (if r = 0 then ''</th>'' else ''</td>''))
                               (rows ! r))
                 @ ''</tr>'' @ [nl]) [0..<length rows])
      = (case rows of [] \<Rightarrow> [] | h # bs \<Rightarrow> renderRow True h @ concat (map (renderRow False) bs))"
    using concat_index_head [of renderRow rows]
    by (simp add: renderRow_def)
  have "renderTable node =
      (if rows = [] then []
       else ''<table class='' @ [dq] @ ''doxygen-table'' @ [dq] @ ''>'' @ [nl]
            @ concat (map (\<lambda>r. ''<tr>''
                 @ concat (map (\<lambda>cell. (if r = 0 then ''<th>'' else ''<td>'') @ cell
                                         @ (if r = 0 then ''</th>'' else ''</td>''))
                               (rows ! r))
                 @ ''</tr>'' @ [nl]) [0..<length rows])
            @ ''</table>'' @ [nl])"
    by (subst renderTable.simps) (simp only: Let_def rows_eq [symmetric])
  then show ?thesis
    unfolding loop rows_def [symmetric] by (cases rows) simp_all
qed

text \<open>
  C8. The rows of a table are its \<^verbatim>\<open>row\<close> children that have at least one \<^verbatim>\<open>entry\<close>
  child, in order; a row without cells is skipped, so removing it changes nothing. With no such
  row the result is empty; otherwise the first of them is written as a header row, every later
  one as a body row, inside the table element. Each cell is the inline rendering of the
  children of its \<^verbatim>\<open>entry\<close>. A table with one row has the header row and no body row.
\<close>

theorem renderTable_rows:
  "renderTable node =
     (case filter (\<lambda>cells. cells \<noteq> []) (map rowCells (childrenNamed node ''row'')) of
        [] \<Rightarrow> []
      | h # bs \<Rightarrow> ''<table class='' @ [dq] @ ''doxygen-table'' @ [dq] @ ''>'' @ [nl]
                  @ renderRow True h @ concat (map (renderRow False) bs)
                  @ ''</table>'' @ [nl])
   \<and> (rowCells r = [] \<longrightarrow>
        renderTable (XmlNode nm tx as (pre @ r # post))
          = renderTable (XmlNode nm tx as (pre @ post)))
   \<and> (filter (\<lambda>cells. cells \<noteq> []) (map rowCells (childrenNamed node ''row'')) = [h] \<longrightarrow>
        renderTable node
          = ''<table class='' @ [dq] @ ''doxygen-table'' @ [dq] @ ''>'' @ [nl]
            @ renderRow True h @ ''</table>'' @ [nl])"
  by (simp add: renderTable_unfold childrenNamed_def)

theorem renderTable_rows_witness:
  "rowCells (XmlNode ''row'' [] [] []) = []
   \<and> renderTable (XmlNode ''table'' [] []
        [XmlNode ''row'' [] [] [],
         XmlNode ''row'' [] [] [XmlNode ''entry'' [] [] [XmlNode ''#text'' ''a'' [] []]]])
     = ''<table class='' @ [dq] @ ''doxygen-table'' @ [dq] @ ''>'' @ [nl]
       @ ''<tr><th>a</th></tr>'' @ [nl] @ ''</table>'' @ [nl]"
  using renderTable_rows [of "XmlNode ''table'' [] []
        [XmlNode ''row'' [] [] [],
         XmlNode ''row'' [] [] [XmlNode ''entry'' [] [] [XmlNode ''#text'' ''a'' [] []]]]"
      "XmlNode ''row'' [] [] []" "''table''" "[]" "[]" "[]"
      "[XmlNode ''row'' [] [] [XmlNode ''entry'' [] [] [XmlNode ''#text'' ''a'' [] []]]]"
      "[''a'']"]
  by (simp add: rowCells_def childrenNamed_def renderRow_def renderNodeInline.simps)

text \<open>
  C9. The rendered document is a function of the tree and of the heading offset alone: two
  renderings of the same tree under options with the same heading offset are the same text,
  whatever else the configuration holds. In particular rendering the same tree twice with the
  same options gives the same text.
\<close>

theorem renderDocument_deterministic:
  assumes "headingOffset config = headingOffset config'"
  shows "renderDocument config root = renderDocument config' root"
proof -
  have member: "renderMember config = renderMember config'"
    using assms by (intro ext) (simp add: renderMember_def)
  have compound: "renderCompound config = renderCompound config'"
    using assms by (intro ext) (simp add: renderCompound_def member cong: if_cong)
  show ?thesis
    by (simp add: renderDocument_def compound)
qed

theorem renderDocument_deterministic_witness:
  "headingOffset defaultConfig = headingOffset (defaultConfig\<lparr>projectName := ''Other''\<rparr>)
   \<and> renderDocument defaultConfig
        (XmlNode ''compounddef'' [] [XmlAttribute ''kind'' ''file''] [])
     = renderDocument (defaultConfig\<lparr>projectName := ''Other''\<rparr>)
        (XmlNode ''compounddef'' [] [XmlAttribute ''kind'' ''file''] [])"
  using renderDocument_deterministic [of defaultConfig
      "defaultConfig\<lparr>projectName := ''Other''\<rparr>"
      "XmlNode ''compounddef'' [] [XmlAttribute ''kind'' ''file''] []"]
  by simp

text \<open>
  C10. When no \<^verbatim>\<open>row\<close> child of a table node has an \<^verbatim>\<open>entry\<close> child (a table without
  rows included), \<^verbatim>\<open>renderTable\<close> returns the empty string: no table element is written. The
  inline dispatcher then renders the table node as the two newlines it puts around a table.
\<close>

theorem renderTable_no_cells:
  assumes "\<forall>row \<in> set (children node). name row = ''row'' \<longrightarrow>
             (\<forall>entry \<in> set (children row). name entry \<noteq> ''entry'')"
  shows "renderTable node = []
         \<and> (name node = ''table'' \<longrightarrow> renderNodeInline node = [nl, nl])"
proof -
  have "filter (\<lambda>cells. cells \<noteq> []) (map rowCells (childrenNamed node ''row'')) = []"
    using assms by (auto simp: filter_empty_conv rowCells_def childrenNamed_def)
  then have "renderTable node = []"
    by (simp add: renderTable_unfold)
  then show ?thesis
    by (subst renderNodeInline.simps) simp
qed

theorem renderTable_no_cells_witness:
  "renderTable (XmlNode ''table'' [] []
        [XmlNode ''row'' [] [] [XmlNode ''#text'' ''x'' [] []], XmlNode ''caption'' [] [] []]) = []
   \<and> renderNodeInline (XmlNode ''table'' [] []
        [XmlNode ''row'' [] [] [XmlNode ''#text'' ''x'' [] []], XmlNode ''caption'' [] [] []])
       = [nl, nl]"
  using renderTable_no_cells [of "XmlNode ''table'' [] []
        [XmlNode ''row'' [] [] [XmlNode ''#text'' ''x'' [] []], XmlNode ''caption'' [] [] []]"]
  by simp

section \<open>Properties of the parser\<close>

text \<open>
  Facts about the scanning functions in terms of the unread input \<open>drop p d\<close>, and what one
  round of each loop does.
\<close>

lemma startsWith_Cons:
  "startsWith d p (c # s) \<longleftrightarrow> p < length d \<and> d ! p = c \<and> startsWith d (p + 1) s"
proof (cases "p < length d")
  case True
  then have "drop p d = d ! p # drop (Suc p) d"
    by (simp add: Cons_nth_drop_Suc)
  then show ?thesis
    using True by (simp add: startsWith_def substr_def)
next
  case False
  then show ?thesis by (simp add: startsWith_def substr_def)
qed

lemma startsWith_get:
  "startsWith d p (c # s) \<Longrightarrow> get d p = (c, p + 1) \<and> \<not> eof d p"
  by (simp add: startsWith_Cons get_def eof_def)

lemma startsWith_Nil [simp]: "startsWith d p []"
  by (simp add: startsWith_def substr_def)

lemma startsWith_ConsD:
  "startsWith d p (c # s) \<Longrightarrow> startsWith d p [c] \<and> startsWith d (p + 1) s"
  by (simp add: startsWith_Cons)

lemma startsWith_append: "startsWith d p (a @ b) \<Longrightarrow> startsWith d p a"
proof -
  assume "startsWith d p (a @ b)"
  then have h: "take (length (a @ b)) (drop p d) = a @ b"
    by (simp add: startsWith_def substr_def)
  have "take (length a) (take (length (a @ b)) (drop p d)) = take (length a) (a @ b)"
    by (simp only: h)
  then show ?thesis
    by (simp add: startsWith_def substr_def min_def)
qed

lemma startsWith_same_length:
  "startsWith d p a \<Longrightarrow> startsWith d p b \<Longrightarrow> length a = length b \<Longrightarrow> a = b"
  by (simp add: startsWith_def)

lemma name_flushText [simp]: "name (flushText node buf) = name node"
  by (simp add: flushText_def)

lemma name_push_child [simp]: "name (push_child node c) = name node"
  by (simp add: push_child_def)

lemma openTag_parseNode:
  assumes "openTag d p = Some (node, p')"
  shows "parseNode d p = parseContent d p' node []"
proof -
  from assms have lt: "startsWith d p ''<''" and nc: "\<not> startsWith d (p + 1) ''!--''"
    and ncd: "\<not> startsWith d (p + 1) ''![CDATA[''"
    by (auto simp: openTag_def split: if_splits)
  from lt have g: "get d p = (CHR ''<'', p + 1)"
    by (simp add: startsWith_get)
  obtain nm p1 where pn: "parseName d (p + 1) = (nm, p1)" by force
  from assms lt nc ncd pn obtain attrs p2 where
    pa: "parseAttributes d (skipWhitespace d p1) [] = Inr (attrs, p2)"
    by (auto simp: openTag_def split: sum.splits)
  from assms lt nc ncd pn pa have nsc: "\<not> startsWith d p2 ''/>''"
    by (auto simp: openTag_def split: if_splits)
  obtain c p3 where g2: "get d p2 = (c, p3)" by force
  from assms lt nc ncd pn pa nsc g2 have "c = CHR ''>''" "node = XmlNode nm [] attrs []" "p' = p3"
    by (auto simp: openTag_def split: if_splits)
  with lt g nc ncd pn pa nsc g2 show ?thesis
    by (subst parseNode.simps) simp
qed

lemma parse_error_propagates:
  shows "nodeCall d p \<Longrightarrow> parseNode d p = Inl e \<Longrightarrow> parse d = Inl e"
    and "contentAt d nm p \<Longrightarrow>
         (\<And>node buf. name node = nm \<Longrightarrow> parseContent d p node buf = Inl e) \<Longrightarrow>
         parse d = Inl e"
proof (induction rule: nodeCall_contentAt.inducts)
  case (root d p)
  then show ?case by (simp add: parse_def)
next
  case (leading_comment d p skipped found)
  from leading_comment(2) have lt: "startsWith d p ''<''" and c: "startsWith d (p + 1) ''!--''"
    using startsWith_ConsD [of d p "CHR ''<''" "''!--''"] by simp_all
  have "parseNode d p = Inl e"
    using lt c leading_comment(3,5) startsWith_get [OF lt]
    by (subst parseNode.simps) (simp add: add.commute)
  then show ?case by (rule leading_comment.IH)
next
  case (enter d p node p')
  have "parseNode d p = Inl e"
    using openTag_parseNode [OF enter(2)] enter(4) by simp
  then show ?case by (rule enter.IH)
next
  case (character d nm p)
  show ?case
  proof (rule character.IH)
    fix node buf
    assume "name node = nm"
    from character(3) have "\<not> startsWith d p ''</''" "\<not> startsWith d p ''<![CDATA[''"
      "\<not> startsWith d p ''<!--''"
      by (auto simp: startsWith_Cons)
    then show "parseContent d p node buf = Inl e"
      using character(2,3) character(5) [OF \<open>name node = nm\<close>]
      by (subst parseContent.simps) (simp add: get_def)
  qed
next
  case (cdata d nm p content found)
  show ?case
  proof (rule cdata.IH)
    fix node buf
    assume n: "name node = nm"
    from cdata(2) have "\<not> eof d p" "\<not> startsWith d p ''</''"
      by (auto simp: startsWith_Cons eof_def)
    then show "parseContent d p node buf = Inl e"
      using cdata(2,3) cdata(5) [of "push_child (flushText node buf) (XmlNode ''#text'' content [] [])" "[]"] n
      by (subst parseContent.simps) simp
  qed
next
  case (comment d nm p skipped found)
  show ?case
  proof (rule comment.IH)
    fix node buf
    assume n: "name node = nm"
    from comment(2) have "\<not> eof d p" "\<not> startsWith d p ''</''" "\<not> startsWith d p ''<![CDATA[''"
      by (auto simp: startsWith_Cons eof_def)
    then show "parseContent d p node buf = Inl e"
      using comment(2,3) comment(5) [OF n]
      by (subst parseContent.simps) simp
  qed
next
  case (child d nm p)
  show ?case
  proof (rule child.IH)
    fix node buf
    assume n: "name node = nm"
    from child(2) have "\<not> eof d p"
      by (auto simp: startsWith_Cons eof_def)
    then show "parseContent d p node buf = Inl e"
      using child(2-5) child(7)
      by (subst parseContent.simps) simp
  qed
next
  case (after_child d nm p c p')
  show ?case
  proof (rule after_child.IH)
    fix node buf
    assume n: "name node = nm"
    from after_child(2) have "\<not> eof d p"
      by (auto simp: startsWith_Cons eof_def)
    then show "parseContent d p node buf = Inl e"
      using after_child(2-6) after_child(8) [of "push_child (flushText node buf) c" "[]"] n
      by (subst parseContent.simps) simp
  qed
qed

lemma isNameChar_simps [simp]:
  "\<not> isNameChar (CHR ''>'')" "\<not> isNameChar (CHR ''!'')" "\<not> isNameChar (CHR ''?'')"
  "\<not> isNameChar (CHR ''/'')" "\<not> isNameChar (CHR ''<'')"
  by (simp_all add: isNameChar_def isalnum_def)

lemma isspace_simps [simp]: "\<not> isspace (CHR ''>'')" "\<not> isspace (CHR ''<'')"
  by (simp_all add: isspace_def)

lemma take_append_le: "n \<le> length xs \<Longrightarrow> take n (xs @ ys) = take n xs"
  by simp

lemma drop_step: "drop p d = x @ r \<Longrightarrow> drop (p + length x) d = r"
  by (metis add.commute append_eq_conv_conj drop_drop)

lemma drop_Cons_facts:
  assumes "drop p d = c # r"
  shows "p < length d" and "d ! p = c" and "drop (p + 1) d = r"
proof -
  show lt: "p < length d"
    by (rule ccontr) (use assms in simp)
  then have "drop p d = d ! p # drop (Suc p) d"
    by (simp add: Cons_nth_drop_Suc)
  with assms show "d ! p = c" and "drop (p + 1) d = r"
    by simp_all
qed

lemma drop_step_n: "drop p d = x @ r \<Longrightarrow> length x = n \<Longrightarrow> drop (p + n) d = r"
  using drop_step [of p d x r] by simp

lemma get_drop: "drop p d = c # r \<Longrightarrow> get d p = (c, p + 1)"
  using drop_Cons_facts(1,2) [of p d c r] by (simp add: get_def eof_def)

lemma peek_drop: "drop p d = c # r \<Longrightarrow> peek d p = c"
  using drop_Cons_facts(1,2) [of p d c r] by (simp add: peek_def eof_def)

lemma not_eof_drop: "drop p d = c # r \<Longrightarrow> \<not> eof d p"
  using drop_Cons_facts(1) [of p d c r] by (simp add: eof_def)

lemma startsWith_drop: "drop p d = x @ r \<Longrightarrow> startsWith d p x"
  by (simp add: startsWith_def substr_def)

lemma not_startsWith_drop: "drop p d = c # r \<Longrightarrow> c \<noteq> c' \<Longrightarrow> \<not> startsWith d p (c' # s)"
  by (simp add: startsWith_def substr_def)

lemma substr_drop: "drop p d = x @ r \<Longrightarrow> substr d p (length x) = x"
  by (simp add: substr_def)

lemma skipWhitespace_stop: "drop p d = c # r \<Longrightarrow> \<not> isspace c \<Longrightarrow> skipWhitespace d p = p"
  by (subst skipWhitespace.simps) (simp add: peek_drop)

lemma parseName_loop_run:
  assumes "drop p d = nm @ r" and "\<forall>c \<in> set nm. isNameChar c"
    and "r = [] \<or> \<not> isNameChar (hd r)"
  shows "parseName_loop d p = p + length nm"
  using assms
proof (induction nm arbitrary: p)
  case Nil
  show ?case
  proof (cases r)
    case Nil
    with Nil.prems have "eof d p" by (simp add: eof_def)
    then show ?thesis by (subst parseName_loop.simps) simp
  next
    case (Cons c r')
    with Nil.prems have "peek d p = c" "\<not> isNameChar c"
      by (simp_all add: peek_drop)
    then show ?thesis
      by (subst parseName_loop.simps) (simp add: isNameChar_def Let_def)
  qed
next
  case (Cons a nm)
  from Cons.prems have d: "drop p d = a # (nm @ r)" and a: "isNameChar a"
    by simp_all
  have "parseName_loop d p = parseName_loop d (p + 1)"
    using a peek_drop [OF d] not_eof_drop [OF d]
    by (subst parseName_loop.simps) (auto simp: isNameChar_def Let_def)
  also have "\<dots> = p + 1 + length nm"
    using Cons.prems drop_Cons_facts(3) [OF d] by (intro Cons.IH) simp_all
  finally show ?case by simp
qed

lemma parseName_run:
  assumes "drop p d = nm @ r" and "\<forall>c \<in> set nm. isNameChar c"
    and "r = [] \<or> \<not> isNameChar (hd r)"
  shows "parseName d p = (nm, p + length nm)"
  using parseName_loop_run [OF assms] substr_drop [OF assms(1)]
  by (simp add: parseName_def Let_def)

lemma find_from_first:
  assumes "drop p d = c @ m @ r" and "m \<noteq> []" and "noMarkerBefore m (c @ m) (length c)"
  shows "find_from d m p = Some (p + length c)"
  using assms(1,3)
proof (induction c arbitrary: p)
  case Nil
  then have d: "drop p d = m @ r" by simp
  have "length (drop p d) \<ge> length m"
    by (simp only: d) simp
  then have "\<not> length d < p + length m"
    using assms(2) by (cases m) auto
  moreover have "substr d p (length m) = m"
    using d by (rule substr_drop)
  ultimately show ?case
    by (subst find_from.simps) simp
next
  case (Cons a c)
  from Cons.prems(1) have d: "drop p d = a # (c @ m @ r)" by simp
  have len: "length (drop p d) \<ge> length m"
    by (simp only: d) simp
  then have inb: "\<not> length d < p + length m"
    using assms(2) by (cases m) auto
  from Cons.prems(2) have "take (length m) (drop 0 ((a # c) @ m)) \<noteq> m"
    unfolding noMarkerBefore_def by (metis length_Cons zero_less_Suc)
  moreover have "drop p d = (a # c @ m) @ r"
    using d by simp
  then have "substr d p (length m) = take (length m) (a # c @ m)"
    unfolding substr_def by (simp only:) (rule take_append_le, simp)
  ultimately have "substr d p (length m) \<noteq> m"
    by simp
  with inb have "find_from d m p = find_from d m (p + 1)"
    by (subst find_from.simps) simp
  also have "\<dots> = Some (p + 1 + length c)"
  proof (rule Cons.IH)
    show "drop (p + 1) d = c @ m @ r"
      using drop_Cons_facts(3) [OF d] .
    show "noMarkerBefore m (c @ m) (length c)"
      unfolding noMarkerBefore_def
    proof (intro allI impI)
      fix k assume "k < length c"
      then have "take (length m) (drop (Suc k) ((a # c) @ m)) \<noteq> m"
        using Cons.prems(2) unfolding noMarkerBefore_def
        by (metis Suc_less_eq length_Cons)
      then show "take (length m) (drop k (c @ m)) \<noteq> m" by simp
    qed
  qed
  finally show ?case by simp
qed

lemma parseUntil_first:
  assumes "drop p d = c @ m @ r" and "m \<noteq> []" and "noMarkerBefore m (c @ m) (length c)"
  shows "parseUntil d p m = Inr (c, p + length c)"
  using find_from_first [OF assms] substr_drop [OF assms(1)]
  by (simp add: parseUntil_def)

lemma parseContent_text:
  assumes "drop p d = x @ r" and "CHR ''<'' \<notin> set x"
  shows "parseContent d p node buf = parseContent d (p + length x) node (buf @ x)"
  using assms
proof (induction x arbitrary: p buf)
  case Nil
  show ?case by simp
next
  case (Cons c x)
  from Cons.prems have d: "drop p d = c # (x @ r)" and c: "c \<noteq> CHR ''<''"
    by auto
  have "parseContent d p node buf = parseContent d (p + 1) node (buf @ [c])"
    using not_eof_drop [OF d] get_drop [OF d] not_startsWith_drop [OF d c]
    by (subst parseContent.simps) simp
  also have "\<dots> = parseContent d (p + 1 + length x) node ((buf @ [c]) @ x)"
    using Cons.prems drop_Cons_facts(3) [OF d] by (intro Cons.IH) simp_all
  finally show ?case by simp
qed

lemma parseContent_comment:
  assumes "drop p d = ''<!--'' @ c @ ''-->'' @ r"
    and "noMarkerBefore ''-->'' (c @ ''-->'') (length c)"
  shows "parseContent d p node buf = parseContent d (p + 4 + length c + 3) node buf"
proof -
  have sw: "startsWith d p ''<!--''"
    using assms(1) by (rule startsWith_drop)
  have ne: "\<not> eof d p" "\<not> startsWith d p ''</''" "\<not> startsWith d p ''<![CDATA[''"
    using sw by (auto simp: startsWith_Cons eof_def)
  have "drop (p + 4) d = c @ ''-->'' @ r"
    using assms(1) by (rule drop_step_n) simp
  then have "parseUntil d (p + 4) ''-->'' = Inr (c, p + 4 + length c)"
    using assms(2) by (intro parseUntil_first) simp_all
  with sw ne show ?thesis
    by (subst parseContent.simps) simp
qed

lemma parseContent_cdata:
  assumes "drop p d = ''<![CDATA['' @ c @ '']]>'' @ r"
    and "noMarkerBefore '']]>'' (c @ '']]>'') (length c)"
  shows "parseContent d p node buf
           = parseContent d (p + 9 + length c + 3)
               (push_child (flushText node buf) (XmlNode ''#text'' c [] [])) []"
proof -
  have sw: "startsWith d p ''<![CDATA[''"
    using assms(1) by (rule startsWith_drop)
  have ne: "\<not> eof d p" "\<not> startsWith d p ''</''"
    using sw by (auto simp: startsWith_Cons eof_def)
  have "drop (p + 9) d = c @ '']]>'' @ r"
    using assms(1) by (rule drop_step_n) simp
  then have "parseUntil d (p + 9) '']]>'' = Inr (c, p + 9 + length c)"
    using assms(2) by (intro parseUntil_first) simp_all
  with sw ne show ?thesis
    by (subst parseContent.simps) simp
qed

lemma parseContent_close:
  assumes "drop p d = ''</'' @ nm @ ''>'' @ r" and "name node = nm"
    and "\<forall>c \<in> set nm. isNameChar c"
  shows "parseContent d p node buf = Inr (flushText node buf, p + 2 + length nm + 1)"
proof -
  have sw: "startsWith d p ''</''"
    using assms(1) startsWith_drop [of p d "''</''" "nm @ ''>'' @ r"] by simp
  then have ne: "\<not> eof d p"
    by (auto simp: startsWith_Cons eof_def)
  have d2: "drop (p + 2) d = nm @ ''>'' @ r"
    by (rule drop_step_n [of p d "''</''"]) (use assms(1) in simp_all)
  have pn: "parseName d (p + 2) = (nm, p + 2 + length nm)"
    using parseName_run [OF d2 assms(3)] by simp
  have d3: "drop (p + 2 + length nm) d = CHR ''>'' # r"
    using drop_step [OF d2] by simp
  have sk: "skipWhitespace d (p + 2 + length nm) = p + 2 + length nm"
    using d3 by (rule skipWhitespace_stop) simp
  show ?thesis
    using sw ne pn sk get_drop [OF d3] assms(2)
    by (subst parseContent.simps) simp
qed

lemma openTag_plain:
  assumes "drop p d = ''<'' @ nm @ ''>'' @ r" and "\<forall>c \<in> set nm. isNameChar c"
  shows "openTag d p = Some (XmlNode nm [] [] [], p + 1 + length nm + 1)"
proof -
  have sw: "startsWith d p ''<''"
    using assms(1) startsWith_drop [of p d "''<''" "nm @ ''>'' @ r"] by simp
  have d1: "drop (p + 1) d = nm @ ''>'' @ r"
    by (rule drop_step_n [of p d "''<''"]) (use assms(1) in simp_all)
  have nb: "\<not> startsWith d (p + 1) (CHR ''!'' # s)" for s
  proof (cases nm)
    case Nil
    with d1 have "drop (p + 1) d = CHR ''>'' # r" by simp
    then show ?thesis by (rule not_startsWith_drop) simp
  next
    case (Cons a nm')
    with assms(2) have "a \<noteq> CHR ''!''" by auto
    moreover from d1 Cons have "drop (p + 1) d = a # (nm' @ ''>'' @ r)" by simp
    ultimately show ?thesis by (rule not_startsWith_drop [rotated])
  qed
  have pn: "parseName d (p + 1) = (nm, p + 1 + length nm)"
    using parseName_run [OF d1 assms(2)] by simp
  have d2: "drop (p + 1 + length nm) d = CHR ''>'' # r"
    using drop_step [OF d1] by simp
  have sk: "skipWhitespace d (p + 1 + length nm) = p + 1 + length nm"
    using d2 by (rule skipWhitespace_stop) simp
  have gt: "startsWith d (p + 1 + length nm) ''>''"
    using d2 startsWith_drop [of "p + 1 + length nm" d "''>''" r] by simp
  then have pa: "parseAttributes d (p + 1 + length nm) [] = Inr ([], p + 1 + length nm)"
    by (subst parseAttributes.simps) simp
  have nsc: "\<not> startsWith d (p + 1 + length nm) ''/>''"
    using d2 by (rule not_startsWith_drop) simp
  show ?thesis
    using sw nb pn sk pa nsc get_drop [OF d2]
    by (simp add: openTag_def)
qed

lemma skipProlog_plain:
  assumes "drop 0 d = ''<'' @ nm @ ''>'' @ r" and "\<forall>c \<in> set nm. isNameChar c"
  shows "skipProlog d = Inr 0"
proof -
  have d0: "drop 0 d = CHR ''<'' # (nm @ ''>'' @ r)"
    using assms(1) by simp
  have sk: "skipWhitespace d 0 = 0"
    using d0 by (rule skipWhitespace_stop) simp
  have d1: "drop (0 + 1) d = nm @ ''>'' @ r"
    using drop_Cons_facts(3) [OF d0] .
  have nb: "\<not> startsWith d (0 + 1) (c # s)" if "\<not> isNameChar c" "c \<noteq> CHR ''>''" for c s
  proof (cases nm)
    case Nil
    with d1 have "drop (0 + 1) d = CHR ''>'' # r" by simp
    then show ?thesis by (rule not_startsWith_drop) (use that in simp)
  next
    case (Cons a nm')
    with assms(2) that have "a \<noteq> c" by auto
    moreover from d1 Cons have "drop (0 + 1) d = a # (nm' @ ''>'' @ r)" by simp
    ultimately show ?thesis by (rule not_startsWith_drop [rotated])
  qed
  have "\<not> startsWith d 0 ''<?''" "\<not> startsWith d 0 ''<!DOCTYPE''"
    using nb [of "CHR ''?''" "[]"] nb [of "CHR ''!''" "''DOCTYPE''"]
      startsWith_ConsD [of d 0 "CHR ''<''" "''?''"]
      startsWith_ConsD [of d 0 "CHR ''<''" "''!DOCTYPE''"]
    by auto
  with sk show ?thesis
    by (simp add: skipProlog_def)
qed

lemma flushText_children:
  "flushText (XmlNode nm tx as cs) buf = XmlNode nm tx as (cs @ textNodes buf)"
  by (simp add: flushText_def textNodes_def)

lemma content_text_close:
  assumes "drop p d = x @ ''</'' @ nm @ ''>'' @ r" and "CHR ''<'' \<notin> set x"
    and "name node = nm" and "\<forall>c \<in> set nm. isNameChar c"
  shows "parseContent d p node buf
           = Inr (flushText node (buf @ x), p + length x + 2 + length nm + 1)"
proof -
  have "parseContent d p node buf = parseContent d (p + length x) node (buf @ x)"
    using assms(1,2) by (rule parseContent_text)
  also have "\<dots> = Inr (flushText node (buf @ x), p + length x + 2 + length nm + 1)"
    using drop_step [OF assms(1)] assms(3,4) by (rule parseContent_close)
  finally show ?thesis .
qed

lemma content_comment:
  assumes "drop p d = x @ ''<!--'' @ c @ ''-->'' @ y @ ''</'' @ nm @ ''>'' @ r"
    and "CHR ''<'' \<notin> set x" and "CHR ''<'' \<notin> set y"
    and "noMarkerBefore ''-->'' (c @ ''-->'') (length c)"
    and "name node = nm" and "\<forall>c \<in> set nm. isNameChar c"
  shows "\<exists>p'. parseContent d p node buf = Inr (flushText node (buf @ x @ y), p')"
proof -
  have d2: "drop (p + length x) d = ''<!--'' @ c @ ''-->'' @ y @ ''</'' @ nm @ ''>'' @ r"
    using assms(1) by (rule drop_step)
  have dA: "drop (p + length x + 4) d = c @ ''-->'' @ y @ ''</'' @ nm @ ''>'' @ r"
    using d2 by (rule drop_step_n) simp
  have dB: "drop (p + length x + 4 + length c) d = ''-->'' @ y @ ''</'' @ nm @ ''>'' @ r"
    using dA by (rule drop_step)
  have d3: "drop (p + length x + 4 + length c + 3) d = y @ ''</'' @ nm @ ''>'' @ r"
    using dB by (rule drop_step_n) simp
  have "parseContent d p node buf = parseContent d (p + length x) node (buf @ x)"
    using assms(1,2) by (rule parseContent_text)
  also have "\<dots> = parseContent d (p + length x + 4 + length c + 3) node (buf @ x)"
    using d2 assms(4) by (rule parseContent_comment)
  also have "\<dots> = Inr (flushText node ((buf @ x) @ y),
      p + length x + 4 + length c + 3 + length y + 2 + length nm + 1)"
    using d3 assms(3,5,6) by (rule content_text_close)
  finally show ?thesis by simp
qed

lemma content_cdata:
  assumes "drop p d = x @ ''<![CDATA['' @ c @ '']]>'' @ y @ ''</'' @ nm @ ''>'' @ r"
    and "CHR ''<'' \<notin> set x" and "CHR ''<'' \<notin> set y"
    and "noMarkerBefore '']]>'' (c @ '']]>'') (length c)"
    and "name node = nm" and "\<forall>c \<in> set nm. isNameChar c"
  shows "\<exists>p'. parseContent d p node buf
           = Inr (flushText (push_child (flushText node (buf @ x)) (XmlNode ''#text'' c [] [])) y, p')"
proof -
  let ?n' = "push_child (flushText node (buf @ x)) (XmlNode ''#text'' c [] [])"
  have d2: "drop (p + length x) d = ''<![CDATA['' @ c @ '']]>'' @ y @ ''</'' @ nm @ ''>'' @ r"
    using assms(1) by (rule drop_step)
  have dA: "drop (p + length x + 9) d = c @ '']]>'' @ y @ ''</'' @ nm @ ''>'' @ r"
    using d2 by (rule drop_step_n) simp
  have dB: "drop (p + length x + 9 + length c) d = '']]>'' @ y @ ''</'' @ nm @ ''>'' @ r"
    using dA by (rule drop_step)
  have d3: "drop (p + length x + 9 + length c + 3) d = y @ ''</'' @ nm @ ''>'' @ r"
    using dB by (rule drop_step_n) simp
  have "parseContent d p node buf = parseContent d (p + length x) node (buf @ x)"
    using assms(1,2) by (rule parseContent_text)
  also have "\<dots> = parseContent d (p + length x + 9 + length c + 3) ?n' []"
    using d2 assms(4) by (rule parseContent_cdata)
  also have "\<dots> = Inr (flushText ?n' ([] @ y),
      p + length x + 9 + length c + 3 + length y + 2 + length nm + 1)"
    using d3 assms(3) _ assms(6) by (rule content_text_close) (simp add: assms(5))
  finally show ?thesis by simp
qed

lemma parse_element:
  assumes "\<forall>c \<in> set nm. isNameChar c"
    and "\<And>d p. drop p d = body \<Longrightarrow>
           \<exists>p'. parseContent d p (XmlNode nm [] [] []) [] = Inr (node, p')"
  shows "parse (''<'' @ nm @ ''>'' @ body) = Inr node"
proof -
  define d where "d = ''<'' @ nm @ ''>'' @ body"
  have d0: "drop 0 d = ''<'' @ nm @ ''>'' @ body"
    by (simp add: d_def)
  have "drop (0 + 1) d = nm @ ''>'' @ body"
    using d0 by (rule drop_step_n) simp
  then have "drop (0 + 1 + length nm) d = ''>'' @ body"
    by (rule drop_step)
  then have "drop (0 + 1 + length nm + 1) d = body"
    by (rule drop_step_n) simp
  from assms(2) [OF this] obtain p' where
    "parseContent d (0 + 1 + length nm + 1) (XmlNode nm [] [] []) [] = Inr (node, p')" ..
  then have "parseNode d 0 = Inr (node, p')"
    using openTag_parseNode [OF openTag_plain [OF d0 assms(1)]] by simp
  then have "parse d = Inr node"
    using skipProlog_plain [OF d0 assms(1)] by (simp add: parse_def)
  then show ?thesis
    by (simp only: d_def)
qed

lemma decodeEntities_loop_drop:
  "decodeEntities_loop t i out = out @ decodeEntities (drop i t)"
proof (induction "length t - i" arbitrary: t i out rule: less_induct)
  case less
  show ?case
  proof (cases "i < length t")
    case False
    then have "decodeEntities_loop t i out = out"
      by (subst decodeEntities_loop.simps) simp
    moreover have "decodeEntities_loop [] 0 [] = []"
      by (subst decodeEntities_loop.simps) simp
    ultimately show ?thesis
      using False by (simp add: decodeEntities_def)
  next
    case True
    define s where "s = drop i t"
    have len: "length s = length t - i" "0 < length s"
      using True by (simp_all add: s_def)
    have A: "decodeEntities_loop t (i + k) (out @ e) = out @ e @ decodeEntities (drop k s)"
      if "0 < k" for k e
      using less.hyps [of t "i + k" "out @ e"] that True by (simp add: s_def add.commute)
    have B: "decodeEntities_loop s k e = e @ decodeEntities (drop k s)"
      if "0 < k" for k e
      using less.hyps [of s k e] that len by simp
    have conds: "s ! 0 = t ! i" "substr s 0 n = substr t i n" for n
      using True by (simp_all add: s_def substr_def)
    have L: "decodeEntities_loop t i out =
       (if t ! i = CHR ''&'' then
           (if substr t i 4 = ''&lt;'' then decodeEntities_loop t (i + 3 + 1) (out @ ''<'')
            else if substr t i 4 = ''&gt;'' then decodeEntities_loop t (i + 3 + 1) (out @ ''>'')
            else if substr t i 5 = ''&amp;'' then decodeEntities_loop t (i + 4 + 1) (out @ ''&'')
            else if substr t i 6 = ''&quot;'' then decodeEntities_loop t (i + 5 + 1) (out @ [dq])
            else if substr t i 6 = ''&apos;'' then
              decodeEntities_loop t (i + 5 + 1) (out @ [CHR 0x27])
            else decodeEntities_loop t (i + 1) (out @ ''&''))
         else decodeEntities_loop t (i + 1) (out @ [t ! i]))"
      by (subst decodeEntities_loop.simps) (simp only: True if_True)
    have R: "decodeEntities s =
       (if t ! i = CHR ''&'' then
           (if substr t i 4 = ''&lt;'' then decodeEntities_loop s (0 + 3 + 1) ([] @ ''<'')
            else if substr t i 4 = ''&gt;'' then decodeEntities_loop s (0 + 3 + 1) ([] @ ''>'')
            else if substr t i 5 = ''&amp;'' then decodeEntities_loop s (0 + 4 + 1) ([] @ ''&'')
            else if substr t i 6 = ''&quot;'' then decodeEntities_loop s (0 + 5 + 1) ([] @ [dq])
            else if substr t i 6 = ''&apos;'' then
              decodeEntities_loop s (0 + 5 + 1) ([] @ [CHR 0x27])
            else decodeEntities_loop s (0 + 1) ([] @ ''&''))
         else decodeEntities_loop s (0 + 1) ([] @ [t ! i]))"
      unfolding decodeEntities_def
      by (subst decodeEntities_loop.simps) (simp only: len(2) if_True conds)
    have n: "i + 3 + 1 = i + 4" "i + 4 + 1 = i + 5" "i + 5 + 1 = i + 6"
      "0 + 3 + 1 = (4::nat)" "0 + 4 + 1 = (5::nat)" "0 + 5 + 1 = (6::nat)" "0 + 1 = (1::nat)"
      by simp_all
    note A' = A [of 4, OF zero_less_numeral] A [of 5, OF zero_less_numeral]
      A [of 6, OF zero_less_numeral] A [of 1, OF zero_less_one]
    note B' = B [of 4, OF zero_less_numeral] B [of 5, OF zero_less_numeral]
      B [of 6, OF zero_less_numeral] B [of 1, OF zero_less_one]
    show ?thesis
      unfolding s_def [symmetric] L R n
      by (simp only: A' B' append_Nil split: if_split) simp
  qed
qed

lemma decodeEntities_step:
  assumes "0 < k" and "decodeEntities_loop t 0 [] = decodeEntities_loop t k e"
  shows "decodeEntities t = e @ decodeEntities (drop k t)"
  using assms(2) decodeEntities_loop_drop [of t k e] by (simp add: decodeEntities_def)

lemma decodeEntities_rules:
  shows "decodeEntities [] = []"
    and "c \<noteq> CHR ''&'' \<Longrightarrow> decodeEntities (c # s) = c # decodeEntities s"
    and "decodeEntities (''&lt;'' @ s) = CHR ''<'' # decodeEntities s"
    and "decodeEntities (''&gt;'' @ s) = CHR ''>'' # decodeEntities s"
    and "decodeEntities (''&amp;'' @ s) = CHR ''&'' # decodeEntities s"
    and "decodeEntities (''&quot;'' @ s) = dq # decodeEntities s"
    and "decodeEntities (''&apos;'' @ s) = CHR 0x27 # decodeEntities s"
    and "take 3 s \<noteq> ''lt;'' \<Longrightarrow> take 3 s \<noteq> ''gt;'' \<Longrightarrow> take 4 s \<noteq> ''amp;'' \<Longrightarrow>
         take 5 s \<noteq> ''quot;'' \<Longrightarrow> take 5 s \<noteq> ''apos;'' \<Longrightarrow>
         decodeEntities (CHR ''&'' # s) = CHR ''&'' # decodeEntities s"
proof -
  show "decodeEntities [] = []"
    unfolding decodeEntities_def by (subst decodeEntities_loop.simps) simp
  show "decodeEntities (c # s) = c # decodeEntities s" if "c \<noteq> CHR ''&''"
  proof -
    have "decodeEntities_loop (c # s) 0 [] = decodeEntities_loop (c # s) 1 [c]"
      by (subst decodeEntities_loop.simps) (simp add: that)
    from decodeEntities_step [OF _ this] show ?thesis by simp
  qed
  show "decodeEntities (''&lt;'' @ s) = CHR ''<'' # decodeEntities s"
  proof -
    have "decodeEntities_loop (''&lt;'' @ s) 0 [] = decodeEntities_loop (''&lt;'' @ s) 4 ''<''"
      by (subst decodeEntities_loop.simps) (simp add: substr_def)
    from decodeEntities_step [OF _ this] show ?thesis by simp
  qed
  show "decodeEntities (''&gt;'' @ s) = CHR ''>'' # decodeEntities s"
  proof -
    have "decodeEntities_loop (''&gt;'' @ s) 0 [] = decodeEntities_loop (''&gt;'' @ s) 4 ''>''"
      by (subst decodeEntities_loop.simps) (simp add: substr_def)
    from decodeEntities_step [OF _ this] show ?thesis by simp
  qed
  show "decodeEntities (''&amp;'' @ s) = CHR ''&'' # decodeEntities s"
  proof -
    have "decodeEntities_loop (''&amp;'' @ s) 0 [] = decodeEntities_loop (''&amp;'' @ s) 5 ''&''"
      by (subst decodeEntities_loop.simps) (simp add: substr_def)
    from decodeEntities_step [OF _ this] show ?thesis by simp
  qed
  show "decodeEntities (''&quot;'' @ s) = dq # decodeEntities s"
  proof -
    have "decodeEntities_loop (''&quot;'' @ s) 0 [] = decodeEntities_loop (''&quot;'' @ s) 6 [dq]"
      by (subst decodeEntities_loop.simps) (simp add: substr_def)
    from decodeEntities_step [OF _ this] show ?thesis by simp
  qed
  show "decodeEntities (''&apos;'' @ s) = CHR 0x27 # decodeEntities s"
  proof -
    have "decodeEntities_loop (''&apos;'' @ s) 0 []
        = decodeEntities_loop (''&apos;'' @ s) 6 [CHR 0x27]"
      by (subst decodeEntities_loop.simps) (simp add: substr_def)
    from decodeEntities_step [OF _ this] show ?thesis by simp
  qed
  show "decodeEntities (CHR ''&'' # s) = CHR ''&'' # decodeEntities s"
    if "take 3 s \<noteq> ''lt;''" "take 3 s \<noteq> ''gt;''" "take 4 s \<noteq> ''amp;''"
      "take 5 s \<noteq> ''quot;''" "take 5 s \<noteq> ''apos;''"
  proof -
    have "decodeEntities_loop (CHR ''&'' # s) 0 [] = decodeEntities_loop (CHR ''&'' # s) 1 ''&''"
      by (subst decodeEntities_loop.simps) (simp add: substr_def that)
    from decodeEntities_step [OF _ this] show ?thesis by simp
  qed
qed

text \<open>
  C3 does not hold as stated: a document must begin with \<^verbatim>\<open><\<close>, so parsing the bare text
  fails and yields no text node.
\<close>

theorem parse_bare_text:
  "parse ''a &lt;b&gt; &amp; c'' = Inl (ExpectedOpen 0)"
  by code_simp

text \<open>
  C3, amended. \<^verbatim>\<open>decodeEntities\<close> reads its text from left to right: a character other than
  \<^verbatim>\<open>&\<close> is kept; each of the five entities is replaced by its character; an \<^verbatim>\<open>&\<close> that
  starts none of the five is kept as it is, and the text behind it is read on, so every other
  \<^verbatim>\<open>&...;\<close> sequence passes through unchanged. The character data of an element is decoded
  this way: a document that consists of an element around character data \<open>x\<close> parses to
  that element with one text node holding the decoded \<open>x\<close> (no text node when \<open>x\<close> is
  empty).
\<close>

theorem decodeEntities_five:
  "decodeEntities [] = []
   \<and> (c \<noteq> CHR ''&'' \<longrightarrow> decodeEntities (c # s) = c # decodeEntities s)
   \<and> decodeEntities (''&lt;'' @ s) = CHR ''<'' # decodeEntities s
   \<and> decodeEntities (''&gt;'' @ s) = CHR ''>'' # decodeEntities s
   \<and> decodeEntities (''&amp;'' @ s) = CHR ''&'' # decodeEntities s
   \<and> decodeEntities (''&quot;'' @ s) = dq # decodeEntities s
   \<and> decodeEntities (''&apos;'' @ s) = CHR 0x27 # decodeEntities s
   \<and> (take 3 s \<noteq> ''lt;'' \<and> take 3 s \<noteq> ''gt;'' \<and> take 4 s \<noteq> ''amp;''
        \<and> take 5 s \<noteq> ''quot;'' \<and> take 5 s \<noteq> ''apos;''
        \<longrightarrow> decodeEntities (CHR ''&'' # s) = CHR ''&'' # decodeEntities s)
   \<and> ((\<forall>a \<in> set nm. isNameChar a) \<and> CHR ''<'' \<notin> set x
        \<longrightarrow> parse (''<'' @ nm @ ''>'' @ x @ ''</'' @ nm @ ''>'')
              = Inr (XmlNode nm [] [] (textNodes x)))"
proof -
  have "parse (''<'' @ nm @ ''>'' @ x @ ''</'' @ nm @ ''>'') = Inr (XmlNode nm [] [] (textNodes x))"
    if nm: "\<forall>a \<in> set nm. isNameChar a" and x: "CHR ''<'' \<notin> set x"
  proof (rule parse_element [OF nm])
    fix d p
    assume "drop p d = x @ ''</'' @ nm @ ''>''"
    then have "drop p d = x @ ''</'' @ nm @ ''>'' @ []" by simp
    from content_text_close [OF this x _ nm, of "XmlNode nm [] [] []" "[]"]
    show "\<exists>p'. parseContent d p (XmlNode nm [] [] []) [] = Inr (XmlNode nm [] [] (textNodes x), p')"
      by (simp add: flushText_children)
  qed
  then show ?thesis
    using decodeEntities_rules(1) decodeEntities_rules(2) [of c s]
      decodeEntities_rules(3-7) [of s] decodeEntities_rules(8) [of s]
    by simp
qed

theorem decodeEntities_five_witness:
  "parse ''<t>a &lt;b&gt; &amp; c</t>''
     = Inr (XmlNode ''t'' [] [] [XmlNode ''#text'' ''a <b> & c'' [] []])
   \<and> decodeEntities ''&nbsp;'' = ''&nbsp;''"
proof -
  have "decodeEntities ''a &lt;b&gt; &amp; c'' = ''a <b> & c''"
    by code_simp
  moreover have "isNameChar (CHR ''t'')"
    by code_simp
  moreover have "decodeEntities ''nbsp;'' = ''nbsp;''"
    by code_simp
  ultimately show ?thesis
    using decodeEntities_five [of "CHR ''&''" "''nbsp;''" "''t''" "''a &lt;b&gt; &amp; c''"]
    by (simp add: textNodes_def)
qed

text \<open>
  C4 does not hold as stated: a comment does not end the pending text, so the character data
  before and after it become one text node.
\<close>

theorem parse_comment_between_text:
  "parse ''<a>x<!--c-->y</a>'' = Inr (XmlNode ''a'' [] [] [XmlNode ''#text'' ''xy'' [] []])"
  by code_simp

text \<open>
  C4, amended. In the content of an element, character data \<open>x\<close> and \<open>y\<close> around a comment
  become one text node: the comment is skipped and the pending text is kept, so the loop of any
  element \<open>node\<close>, at any position of any document, with pending text \<open>buf\<close>, ends at the
  closing tag with the single flush of \<open>buf\<close>, \<open>x\<close> and \<open>y\<close> together. Around a CDATA
  section the pending text and \<open>x\<close> are flushed first, then the node of the CDATA content is
  appended, taken as it is, and \<open>y\<close> is flushed at the end: the CDATA content is never merged
  with the text around it. For a document that is one such element the children are: the one
  text node of \<open>x\<close> followed by \<open>y\<close>, decoded; respectively the text node of \<open>x\<close>, the
  CDATA node and the text node of \<open>y\<close>. An empty run gives no text node. Here \<open>x\<close> and
  \<open>y\<close> have no \<^verbatim>\<open><\<close>, and \<open>c\<close> is the text up to the first end marker.
\<close>

theorem content_text_nodes:
  assumes "CHR ''<'' \<notin> set x" and "CHR ''<'' \<notin> set y" and "\<forall>a \<in> set nm. isNameChar a"
  shows "(noMarkerBefore ''-->'' (c @ ''-->'') (length c) \<longrightarrow>
            (name node = nm
               \<and> drop p d = x @ ''<!--'' @ c @ ''-->'' @ y @ ''</'' @ nm @ ''>'' @ r \<longrightarrow>
             (\<exists>p'. parseContent d p node buf = Inr (flushText node (buf @ x @ y), p')))
            \<and> parse (''<'' @ nm @ ''>'' @ x @ ''<!--'' @ c @ ''-->'' @ y @ ''</'' @ nm @ ''>'')
                = Inr (XmlNode nm [] [] (textNodes (x @ y))))
       \<and> (noMarkerBefore '']]>'' (c @ '']]>'') (length c) \<longrightarrow>
            (name node = nm
               \<and> drop p d = x @ ''<![CDATA['' @ c @ '']]>'' @ y @ ''</'' @ nm @ ''>'' @ r \<longrightarrow>
             (\<exists>p'. parseContent d p node buf
                = Inr (flushText (push_child (flushText node (buf @ x))
                                             (XmlNode ''#text'' c [] [])) y, p')))
            \<and> parse (''<'' @ nm @ ''>'' @ x @ ''<![CDATA['' @ c @ '']]>'' @ y @ ''</'' @ nm @ ''>'')
                = Inr (XmlNode nm [] []
                         (textNodes x @ [XmlNode ''#text'' c [] []] @ textNodes y)))"
proof (intro conjI impI; (elim conjE)?)
  note x = assms(1) and y = assms(2) and nm = assms(3)
  show "\<exists>p'. parseContent d p node buf = Inr (flushText node (buf @ x @ y), p')"
    if "noMarkerBefore ''-->'' (c @ ''-->'') (length c)" and "name node = nm"
      and "drop p d = x @ ''<!--'' @ c @ ''-->'' @ y @ ''</'' @ nm @ ''>'' @ r"
    using that(3) x y that(1,2) nm by (rule content_comment)
  show "parse (''<'' @ nm @ ''>'' @ x @ ''<!--'' @ c @ ''-->'' @ y @ ''</'' @ nm @ ''>'')
           = Inr (XmlNode nm [] [] (textNodes (x @ y)))"
    if c: "noMarkerBefore ''-->'' (c @ ''-->'') (length c)"
  proof (rule parse_element [OF nm])
    fix d p
    assume "drop p d = x @ ''<!--'' @ c @ ''-->'' @ y @ ''</'' @ nm @ ''>''"
    then have "drop p d = x @ ''<!--'' @ c @ ''-->'' @ y @ ''</'' @ nm @ ''>'' @ []" by simp
    from content_comment [OF this x y c _ nm, of "XmlNode nm [] [] []" "[]"]
    show "\<exists>p'. parseContent d p (XmlNode nm [] [] []) []
            = Inr (XmlNode nm [] [] (textNodes (x @ y)), p')"
      by (simp add: flushText_children)
  qed
  show "\<exists>p'. parseContent d p node buf
          = Inr (flushText (push_child (flushText node (buf @ x))
                                       (XmlNode ''#text'' c [] [])) y, p')"
    if "noMarkerBefore '']]>'' (c @ '']]>'') (length c)" and "name node = nm"
      and "drop p d = x @ ''<![CDATA['' @ c @ '']]>'' @ y @ ''</'' @ nm @ ''>'' @ r"
    using that(3) x y that(1,2) nm by (rule content_cdata)
  show "parse (''<'' @ nm @ ''>'' @ x @ ''<![CDATA['' @ c @ '']]>'' @ y @ ''</'' @ nm @ ''>'')
           = Inr (XmlNode nm [] []
                    (textNodes x @ [XmlNode ''#text'' c [] []] @ textNodes y))"
    if c: "noMarkerBefore '']]>'' (c @ '']]>'') (length c)"
  proof (rule parse_element [OF nm])
    fix d p
    assume "drop p d = x @ ''<![CDATA['' @ c @ '']]>'' @ y @ ''</'' @ nm @ ''>''"
    then have "drop p d = x @ ''<![CDATA['' @ c @ '']]>'' @ y @ ''</'' @ nm @ ''>'' @ []" by simp
    from content_cdata [OF this x y c _ nm, of "XmlNode nm [] [] []" "[]"]
    show "\<exists>p'. parseContent d p (XmlNode nm [] [] []) []
            = Inr (XmlNode nm [] [] (textNodes x @ [XmlNode ''#text'' c [] []] @ textNodes y), p')"
      by (simp add: flushText_children push_child_def)
  qed
qed

theorem content_text_nodes_witness:
  "parse ''<p>x &amp; <!-- > -->y</p>''
     = Inr (XmlNode ''p'' [] [] [XmlNode ''#text'' ''x & y'' [] []])
   \<and> parse ''<p>x &amp; <![CDATA[&lt;]]>y</p>''
     = Inr (XmlNode ''p'' [] []
         [XmlNode ''#text'' ''x & '' [] [], XmlNode ''#text'' ''&lt;'' [] [],
          XmlNode ''#text'' ''y'' [] []])"
proof -
  have "\<forall>a \<in> set ''p''. isNameChar a"
    by code_simp
  moreover have "CHR ''<'' \<notin> set ''x &amp; ''" "CHR ''<'' \<notin> set ''y''"
    by simp_all
  moreover have "noMarkerBefore ''-->'' ('' > '' @ ''-->'') (length '' > '')"
    "noMarkerBefore '']]>'' (''&lt;'' @ '']]>'') (length ''&lt;'')"
    by (simp_all add: noMarkerBefore_def less_Suc_eq)
  moreover have "decodeEntities ''x &amp; y'' = ''x & y''" "decodeEntities ''x &amp; '' = ''x & ''"
    "decodeEntities ''y'' = ''y''"
    by code_simp+
  ultimately show ?thesis
    using content_text_nodes [of "''x &amp; ''" "''y''" "''p''" "'' > ''"]
      content_text_nodes [of "''x &amp; ''" "''y''" "''p''" "''&lt;''"]
    by (simp add: textNodes_def)
qed

text \<open>
  C5: the end of input inside the content of an element, before its closing tag, is not
  reported; the element is returned as if it had been closed there.
\<close>

theorem parse_truncated_element:
  "parse ''<a>x'' = Inr (XmlNode ''a'' [] [] [XmlNode ''#text'' ''x'' [] []])"
  by code_simp

text \<open>
  C6. Whenever the parser, at any depth of any document, is in the content of an open element
  and meets a closing tag whose name differs from the name of that element, the whole parse
  fails with the mismatched closing tag error: the result is the error and no tree, whatever
  had been parsed before.
\<close>

theorem mismatched_closing_tag:
  assumes "contentAt d nm p" and "startsWith d p ''</''"
    and "parseName d (p + 2) = (endName, p1)" and "endName \<noteq> nm"
  shows "parse d = Inl (MismatchedClosingTag endName nm)"
proof (rule parse_error_propagates(2) [OF assms(1)])
  fix node buf
  assume "name node = nm"
  moreover from assms(2) have "\<not> eof d p"
    by (auto simp: startsWith_Cons eof_def)
  ultimately show "parseContent d p node buf = Inl (MismatchedClosingTag endName nm)"
    using assms(2-4) by (subst parseContent.simps) simp
qed

theorem mismatched_closing_tag_witness:
  "parse ''<a><b></a>'' = Inl (MismatchedClosingTag ''a'' ''b'')"
proof -
  let ?d = "''<a><b></a>''"
  have "skipProlog ?d = Inr 0"
    by code_simp
  then have "nodeCall ?d 0"
    by (rule nodeCall_contentAt.root)
  moreover have "openTag ?d 0 = Some (XmlNode ''a'' [] [] [], 3)"
    by code_simp
  ultimately have "contentAt ?d (name (XmlNode ''a'' [] [] [])) 3"
    by (rule nodeCall_contentAt.enter)
  then have a: "contentAt ?d ''a'' 3"
    by simp
  have "startsWith ?d 3 ''<''" "\<not> startsWith ?d 3 ''</''" "\<not> startsWith ?d 3 ''<![CDATA[''"
    "\<not> startsWith ?d 3 ''<!--''"
    by code_simp+
  with a have "nodeCall ?d 3"
    by (rule nodeCall_contentAt.child)
  moreover have "openTag ?d 3 = Some (XmlNode ''b'' [] [] [], 6)"
    by code_simp
  ultimately have "contentAt ?d (name (XmlNode ''b'' [] [] [])) 6"
    by (rule nodeCall_contentAt.enter)
  then have b: "contentAt ?d ''b'' 6"
    by simp
  have "startsWith ?d 6 ''</''" "parseName ?d (6 + 2) = (''a'', 9)" "''a'' \<noteq> ''b''"
    by code_simp+
  with b show ?thesis
    by (rule mismatched_closing_tag)
qed

end
